theory Spec2Isabelle
  imports Main "HOL-Library.Sublist" "HOL-Library.Multiset"
begin

section \<open>Data model of \<open>client/fs_endpoint.go\<close>\<close>

text \<open>
  \<open>cstructs.AllocFileInfo\<close>: the fields the endpoint reads. \<open>Size\<close> is an \<open>int64\<close>; it is an
  \<open>int\<close> here and every \<open>int64\<close> operation of the source is written with \<open>wrap64\<close>.
\<close>

record AllocFileInfo =
  Name :: string
  IsDir :: bool
  Size :: int

text \<open>\<open>indexTuple\<close> (line 781): a log index and the directory entry it was parsed from.\<close>

record indexTuple =
  idx :: int
  entry :: AllocFileInfo

text \<open>Two's complement wrap-around of \<open>int64\<close> arithmetic, and the range of an \<open>int64\<close>.\<close>

definition wrap64 :: "int \<Rightarrow> int" where
  "wrap64 x = (x + 2 ^ 63) mod 2 ^ 64 - 2 ^ 63"

definition int64 :: "int \<Rightarrow> bool" where
  "int64 x = (- (2 ^ 63) \<le> x \<and> x < 2 ^ 63)"

definition MaxInt64 :: int where
  "MaxInt64 = 2 ^ 63 - 1"

definition MinInt64 :: int where
  "MinInt64 = - (2 ^ 63)"

text \<open>
  Go error values. The \<open>syscall.Errno\<close> values and the \<open>io\<close> and \<open>os\<close> sentinels the file
  compares against are constructors; \<open>ErrorString m\<close> is any other error value with message
  \<open>m\<close> (\<open>errors.New\<close>, \<open>fmt.Errorf\<close> without verbs, errors of other packages); \<open>PathError\<close> is
  \<open>*os.PathError\<close> over an \<open>Errno\<close>. The errors this file builds with \<open>fmt.Errorf\<close> and verbs keep
  their arguments: \<open>ErrLogIndexConvert\<close> (line 812), \<open>ErrLogEntryNotFound\<close> (line 834),
  \<open>ErrListEntries\<close> (line 516), \<open>ErrStreamFailed\<close> (line 571, with the name of the entry whose
  path it quotes) and \<open>ErrIsDirectory\<close> (line 207). \<open>RuntimePanic\<close> stands for an
  index-out-of-range panic, which is not an error value in Go. \<open>structs_ErrPermissionDenied\<close> is
  the sentinel \<open>structs.ErrPermissionDenied\<close>. A \<open>nil\<close> error is \<open>None\<close> of \<open>error option\<close>.
\<close>

datatype errno = EPIPE | ECONNRESET | ENOENT

datatype error =
    Errno errno
  | io_EOF
  | io_ErrClosedPipe
  | os_ErrNotExist
  | structs_ErrPermissionDenied
  | PathError string string errno
  | ErrorString string
  | ErrLogIndexConvert string
  | ErrLogEntryNotFound string string
  | ErrListEntries error
  | ErrStreamFailed string error
  | ErrIsDirectory string
  | RuntimePanic


section \<open>Library functions used by the log-segment index\<close>

text \<open>
  \<open>strings.TrimPrefix\<close>: \<open>s\<close> without the leading \<open>p\<close>, or \<open>s\<close> itself when \<open>p\<close> is not a
  prefix of it.
\<close>

definition TrimPrefix :: "string \<Rightarrow> string \<Rightarrow> string" where
  "TrimPrefix s p = (if prefix p s then drop (length p) s else s)"

text \<open>
  \<open>strconv.Atoi\<close> on a platform whose \<open>int\<close> has 64 bits: an optional sign \<open>+\<close> or \<open>-\<close>,
  then one or more decimal digits, and a value that fits \<open>int64\<close>. \<open>None\<close> is a
  \<open>*strconv.NumError\<close> (syntax or range).
\<close>

definition isDigit :: "char \<Rightarrow> bool" where
  "isDigit c = (48 \<le> (of_char c :: int) \<and> (of_char c :: int) \<le> 57)"

definition digitsVal :: "string \<Rightarrow> int" where
  "digitsVal ds = foldl (\<lambda>n c. n * 10 + ((of_char c :: int) - 48)) 0 ds"

definition Atoi :: "string \<Rightarrow> int option" where
  "Atoi s =
     (let neg = (s \<noteq> [] \<and> hd s = CHR ''-'');
          ds = (if s \<noteq> [] \<and> (hd s = CHR ''-'' \<or> hd s = CHR ''+'') then tl s else s)
      in if ds = [] then None
         else if \<not> list_all isDigit ds then None
         else let v = (if neg then - digitsVal ds else digitsVal ds)
              in if int64 v then Some v else None)"

text \<open>
  \<open>sort.Search n f\<close>: the binary search of the Go library, \<open>i, j := 0, n\<close> and
  \<open>h := (i + j) / 2\<close> while \<open>i < j\<close>.
\<close>

function sort_Search_loop :: "(nat \<Rightarrow> bool) \<Rightarrow> nat \<Rightarrow> nat \<Rightarrow> nat" where
  "sort_Search_loop f i j =
     (if i < j then
        (let h = (i + j) div 2
         in if \<not> f h then sort_Search_loop f (h + 1) j else sort_Search_loop f i h)
      else i)"
  by pat_completeness auto
termination
  by (relation "measure (\<lambda>(f, i, j). j - i)") auto

definition sort_Search :: "nat \<Rightarrow> (nat \<Rightarrow> bool) \<Rightarrow> nat" where
  "sort_Search n f = sort_Search_loop f 0 n"

text \<open>
  \<open>sort.Sort\<close> is not stable, so the order it gives entries of equal index is not fixed
  by its contract. The sort is a parameter \<open>srt\<close> of \<open>findClosest\<close>; \<open>sort_ok srt\<close> is the
  contract of \<open>sort.Sort\<close> with \<open>Less\<close> of line 789: the result is a permutation of the
  argument, ascending by \<open>idx\<close>.
\<close>

definition sort_ok :: "(indexTuple list \<Rightarrow> indexTuple list) \<Rightarrow> bool" where
  "sort_ok srt = (\<forall>xs. mset (srt xs) = mset xs \<and> sorted (map idx (srt xs)))"


section \<open>The log-segment index\<close>

text \<open>
  \<open>logIndexes\<close> (line 795). The loop over \<open>entries\<close> appends to \<open>indexes\<close>; the first
  suffix \<open>strconv.Atoi\<close> rejects ends the call with an error.
\<close>

fun logIndexes_loop :: "AllocFileInfo list \<Rightarrow> string \<Rightarrow> indexTuple list \<Rightarrow> error + indexTuple list" where
  "logIndexes_loop [] pfx indexes = Inr indexes"
| "logIndexes_loop (e # es) pfx indexes =
     (if IsDir e then logIndexes_loop es pfx indexes
      else let idxStr = TrimPrefix (Name e) pfx
           in if idxStr = Name e then logIndexes_loop es pfx indexes
              else (case Atoi idxStr of
                      None \<Rightarrow> Inl (ErrLogIndexConvert idxStr)
                    | Some i \<Rightarrow> logIndexes_loop es pfx (indexes @ [\<lparr>idx = i, entry = e\<rparr>])))"

definition logIndexes :: "AllocFileInfo list \<Rightarrow> string \<Rightarrow> string \<Rightarrow> error + indexTuple list" where
  "logIndexes entries task logType = logIndexes_loop entries (task @ ''.'' @ logType @ ''.'') []"

text \<open>
  One iteration of the offset loop of \<open>findClosest\<close> (lines 849 to 888) at offset \<open>off\<close>
  and array position \<open>k\<close>: \<open>Break\<close> leaves the loop with the final offset and position,
  \<open>Next\<close> is \<open>continue\<close>. Reading \<open>indexes[k]\<close> outside the array panics.
\<close>

datatype loopCtl = Break int nat | Next int nat | Panic

definition offsetStep :: "indexTuple list \<Rightarrow> int \<Rightarrow> nat \<Rightarrow> loopCtl" where
  "offsetStep indexes off k =
     (if length indexes \<le> k then Panic
      else let s = Size (entry (indexes ! k))
           in if off = 0 then Break off k
              else if off < 0 then
                (let newOffset = wrap64 (s + off)
                 in if newOffset \<ge> 0 then Break newOffset k
                    else if k = 0 then Break 0 k
                    else Next newOffset (k - 1))
              else
                (if off \<le> s then Break off k
                 else if k = length indexes - 1 then Break s k
                 else Next (wrap64 (off - s)) (k + 1)))"

definition loopMeasure :: "indexTuple list \<Rightarrow> int \<Rightarrow> nat \<Rightarrow> nat" where
  "loopMeasure indexes off k = (if off > 0 then 2 * length indexes - k else k)"


function offsetLoop :: "indexTuple list \<Rightarrow> int \<Rightarrow> nat \<Rightarrow> (int \<times> nat) option" where
  "offsetLoop indexes off k =
     (case offsetStep indexes off k of
        Break off' k' \<Rightarrow> Some (off', k')
      | Next off' k' \<Rightarrow> offsetLoop indexes off' k'
      | Panic \<Rightarrow> None)"
  by pat_completeness auto
termination
  by (relation "measure (\<lambda>(indexes, off, k). loopMeasure indexes off k)")
     (auto simp: offsetStep_def loopMeasure_def Let_def split: if_splits)

text \<open>The same loop with a budget of iterations: \<open>None\<close> when the budget runs out.\<close>

fun offsetLoop_fuel :: "nat \<Rightarrow> indexTuple list \<Rightarrow> int \<Rightarrow> nat \<Rightarrow> loopCtl option" where
  "offsetLoop_fuel 0 indexes off k = None"
| "offsetLoop_fuel (Suc n) indexes off k =
     (case offsetStep indexes off k of
        Next off' k' \<Rightarrow> offsetLoop_fuel n indexes off' k'
      | r \<Rightarrow> Some r)"

text \<open>\<open>findClosest\<close> (line 825).\<close>

definition findClosest ::
  "(indexTuple list \<Rightarrow> indexTuple list) \<Rightarrow> AllocFileInfo list \<Rightarrow> int \<Rightarrow> int \<Rightarrow> string \<Rightarrow> string
     \<Rightarrow> error + (AllocFileInfo \<times> int \<times> int)" where
  "findClosest srt entries desiredIdx desiredOffset task logType =
     (case logIndexes entries task logType of
        Inl err \<Rightarrow> Inl err
      | Inr unsorted \<Rightarrow>
          if length unsorted = 0 then Inl (ErrLogEntryNotFound task logType)
          else
            let indexes = srt unsorted;
                i = sort_Search (length indexes) (\<lambda>i. idx (indexes ! i) \<ge> desiredIdx);
                l = length indexes;
                i = (if i = l then l - 1 else i)
            in (case offsetLoop indexes desiredOffset i of
                  None \<Rightarrow> Inl RuntimePanic
                | Some (off, k) \<Rightarrow> Inr (entry (indexes ! k), idx (indexes ! k), off)))"


section \<open>The log stream driver\<close>

text \<open>
  \<open>os.IsNotExist\<close>: the error, or the error under a \<open>*PathError\<close>, is \<open>ENOENT\<close> or
  \<open>os.ErrNotExist\<close>.
\<close>

fun os_IsNotExist :: "error \<Rightarrow> bool" where
  "os_IsNotExist (Errno e) = (e = ENOENT)"
| "os_IsNotExist os_ErrNotExist = True"
| "os_IsNotExist (PathError opn path e) = (e = ENOENT)"
| "os_IsNotExist err = False"

definition invalidOrigin :: error where
  "invalidOrigin = ErrorString ''origin must be start or end''"

text \<open>The variables \<open>logsImpl\<close> carries from one iteration of its loop to the next.\<close>

record logsVars =
  offset :: int
  nextIdx :: int

text \<open>Lines 496 to 505: \<open>nextIdx\<close> and the sign of \<open>offset\<close> from the origin.\<close>

definition logsImpl_init :: "string \<Rightarrow> int \<Rightarrow> error + logsVars" where
  "logsImpl_init origin off =
     (if origin = ''start'' then Inr \<lparr>offset = off, nextIdx = 0\<rparr>
      else if origin = ''end'' then Inr \<lparr>offset = wrap64 (off * (- 1)), nextIdx = MaxInt64\<rparr>
      else Inl invalidOrigin)"

text \<open>
  What the environment answers during one iteration: the listing of \<open>fs.List\<close>, the error
  \<open>streamFile\<close> returns, whether \<open>ctx.Done()\<close> is closed at line 553 and whether
  \<open>framer.ExitCh()\<close> is closed at line 582.
\<close>

record iterEnv =
  fsList :: "error + AllocFileInfo list"
  streamErr :: "error option"
  ctxDone :: bool
  framerExit :: bool

text \<open>
  The \<open>eofCancelCh\<close> handed to \<open>streamFile\<close>: a channel that is already closed, or the channel
  of \<open>blockUntilNextLog\<close> for a next index. \<open>StreamFile logEntry openOffset ch\<close> is the call
  \<open>f.streamFile(ctx, openOffset, p, 0, fs, framer, ch)\<close> of line 550, with \<open>p\<close> the path of
  \<open>logEntry\<close> in the log directory.
\<close>

datatype eofCancel = ClosedChan | BlockUntilNextLog int

datatype streamCall = StreamFile AllocFileInfo int eofCancel

datatype loopExit = Return "error option" | Continue logsVars

text \<open>Lines 521 to 528: \<open>maxIndex\<close>.\<close>

definition maxIndexOf ::
  "(indexTuple list \<Rightarrow> indexTuple list) \<Rightarrow> bool \<Rightarrow> AllocFileInfo list \<Rightarrow> string \<Rightarrow> string
     \<Rightarrow> error + int" where
  "maxIndexOf srt follow entries task logType =
     (if \<not> follow then
        (case findClosest srt entries MaxInt64 0 task logType of
           Inl err \<Rightarrow> Inl err
         | Inr (e, i, off) \<Rightarrow> Inr i)
      else Inr MaxInt64)"

text \<open>
  Lines 535 to 589: what the iteration does with the selected \<open>(logEntry, i, openOffset)\<close>. The
  result is the calls of \<open>streamFile\<close> it made and how the iteration ends; \<open>Continue\<close> with the
  variables unchanged is the \<open>continue\<close> of line 563.
\<close>

definition logsImpl_segment ::
  "bool \<Rightarrow> int \<Rightarrow> logsVars \<Rightarrow> AllocFileInfo \<Rightarrow> int \<Rightarrow> int \<Rightarrow> iterEnv \<Rightarrow> streamCall list \<times> loopExit" where
  "logsImpl_segment follow maxIndex st logEntry i openOffset env =
     (if \<not> follow \<and> i > maxIndex then ([], Return None)
      else
        let exitAfter = (\<not> follow \<and> i = maxIndex);
            eofCancelCh = (if exitAfter then ClosedChan else BlockUntilNextLog (wrap64 (i + 1)));
            calls = [StreamFile logEntry openOffset eofCancelCh]
        in if ctxDone env then (calls, Return None)
           else (case streamErr env of
                   Some err \<Rightarrow>
                     if os_IsNotExist err then (calls, Continue st)
                     else if err = Errno EPIPE then (calls, Return None)
                     else (calls, Return (Some (ErrStreamFailed (Name logEntry) err)))
                 | None \<Rightarrow>
                     if exitAfter then (calls, Return None)
                     else if framerExit env then (calls, Return None)
                     else (calls, Continue \<lparr>offset = 0, nextIdx = wrap64 (i + 1)\<rparr>)))"

text \<open>One iteration of the loop of \<open>logsImpl\<close> (lines 507 to 590).\<close>

definition logsImpl_iter ::
  "(indexTuple list \<Rightarrow> indexTuple list) \<Rightarrow> bool \<Rightarrow> string \<Rightarrow> string \<Rightarrow> logsVars \<Rightarrow> iterEnv
     \<Rightarrow> streamCall list \<times> loopExit" where
  "logsImpl_iter srt follow task logType st env =
     (case fsList env of
        Inl err \<Rightarrow> ([], Return (Some (ErrListEntries err)))
      | Inr entries \<Rightarrow>
          (case maxIndexOf srt follow entries task logType of
             Inl err \<Rightarrow> ([], Return (Some err))
           | Inr maxIndex \<Rightarrow>
               (case findClosest srt entries (nextIdx st) (offset st) task logType of
                  Inl err \<Rightarrow> ([], Return (Some err))
                | Inr (logEntry, i, openOffset) \<Rightarrow>
                    logsImpl_segment follow maxIndex st logEntry i openOffset env)))"

text \<open>
  The loop against the answers of the environment, one \<open>iterEnv\<close> per iteration: the calls
  of \<open>streamFile\<close> in order and the value returned, or \<open>None\<close> while the loop is still running
  when the answers end.
\<close>

fun logsImpl_loop ::
  "(indexTuple list \<Rightarrow> indexTuple list) \<Rightarrow> bool \<Rightarrow> string \<Rightarrow> string \<Rightarrow> logsVars \<Rightarrow> iterEnv list
     \<Rightarrow> streamCall list \<times> error option option" where
  "logsImpl_loop srt follow task logType st [] = ([], None)"
| "logsImpl_loop srt follow task logType st (env # envs) =
     (case logsImpl_iter srt follow task logType st env of
        (calls, Return r) \<Rightarrow> (calls, Some r)
      | (calls, Continue st') \<Rightarrow>
          (case logsImpl_loop srt follow task logType st' envs of
             (calls', r) \<Rightarrow> (calls @ calls', r)))"

text \<open>\<open>logsImpl\<close> (line 483).\<close>

definition logsImpl ::
  "(indexTuple list \<Rightarrow> indexTuple list) \<Rightarrow> bool \<Rightarrow> int \<Rightarrow> string \<Rightarrow> string \<Rightarrow> string \<Rightarrow> iterEnv list
     \<Rightarrow> streamCall list \<times> error option option" where
  "logsImpl srt follow off origin task logType envs =
     (case logsImpl_init origin off of
        Inl err \<Rightarrow> ([], Some (Some err))
      | Inr st \<Rightarrow> logsImpl_loop srt follow task logType st envs)"


section \<open>The file tailer\<close>

text \<open>\<open>strings.Contains\<close>.\<close>

primrec Contains :: "string \<Rightarrow> string \<Rightarrow> bool" where
  "Contains [] substr = (substr = [])"
| "Contains (c # s) substr = (prefix substr (c # s) \<or> Contains s substr)"

text \<open>
  \<open>parseFramerErr\<close> (line 895). The method \<open>Error()\<close> of the error values is the parameter
  \<open>Error\<close>: the messages are fixed by the types of the errors, outside this file.
\<close>

definition parseFramerErr :: "(error \<Rightarrow> string) \<Rightarrow> error option \<Rightarrow> error option" where
  "parseFramerErr Error err =
     (case err of
        None \<Rightarrow> None
      | Some e \<Rightarrow>
          let errMsg = Error e
          in if Contains errMsg (Error io_ErrClosedPipe) then Some (Errno EPIPE)
             else if Contains errMsg (Error (Errno EPIPE)) \<or> Contains errMsg (Error (Errno ECONNRESET))
               then Some (Errno EPIPE)
             else if Contains errMsg ''forcibly closed'' then Some (Errno EPIPE)
             else Some e)"

definition streamFrameSize :: int where
  "streamFrameSize = 64 * 1024"

definition deleteEvent :: string where
  "deleteEvent = ''file deleted''"

definition truncateEvent :: string where
  "truncateEvent = ''file truncated''"

text \<open>
  The reader \<open>streamFile\<close> reads from: the file itself, or an \<open>io.LimitedReader\<close> over it with
  \<open>N\<close> bytes remaining.
\<close>

datatype reader = FileReader | LimitedReader int

text \<open>
  The variables of \<open>streamFile\<close> (line 597): \<open>readOffset\<close> is its \<open>offset\<close>, \<open>fileNum\<close> numbers the
  handles \<open>fs.ReadAt\<close> has returned (0 for the first), \<open>changes\<close> tells whether the file
  change watcher exists.
\<close>

record streamVars =
  readOffset :: int
  fileNum :: nat
  fileReader :: reader
  lastEvent :: string
  changes :: bool

text \<open>
  The case of the \<open>select\<close> of line 671 that fires. \<open>Deleted r\<close> carries what \<open>framer.Send\<close> of
  the delete event returns, \<open>Truncated c r\<close> what \<open>file.Close\<close> and \<open>fs.ReadAt\<close> return, and
  \<open>EofCancel r\<close> the value received from \<open>eofCancelCh\<close> (\<open>None\<close> also when the channel is closed).
\<close>

datatype waitEvent =
    Modified
  | Deleted "error option"
  | Truncated "error option" "error option"
  | FramerExit
  | CtxDone
  | EofCancel "error option"

text \<open>
  What the environment answers during one iteration of the loop \<open>OUTER\<close>: the number of bytes
  and the error of the read of the file (\<open>Some io_EOF\<close> at the end of the file), the error of
  \<open>framer.Send\<close>, the error of \<open>fs.ChangeEvents\<close>, and the case of the \<open>select\<close>.
\<close>

record readEnv =
  fileRead :: "nat \<times> error option"
  sendErr :: "error option"
  changeEventsErr :: "error option"
  selected :: waitEvent

text \<open>
  The calls \<open>streamFile\<close> makes: \<open>fs.ReadAt path offset\<close>, \<open>file.Close\<close> of a handle,
  \<open>framer.Send path event data offset\<close> with the length of \<open>data\<close>, and
  \<open>fs.ChangeEvents path offset\<close>.
\<close>

datatype fileCall =
    ReadAt string int
  | Close nat
  | Send string string nat int
  | ChangeEvents string int

text \<open>
  \<open>Read\<close> of the reader: \<open>io.LimitedReader\<close> answers \<open>(0, EOF)\<close> without reading when \<open>N \<le> 0\<close>,
  and else reads the file and lowers \<open>N\<close> by the number of bytes read.
\<close>

definition reader_Read :: "reader \<Rightarrow> nat \<times> error option \<Rightarrow> nat \<times> error option \<times> reader" where
  "reader_Read rd fr =
     (case rd of
        FileReader \<Rightarrow> (fst fr, snd fr, FileReader)
      | LimitedReader N \<Rightarrow>
          if N \<le> 0 then (0, Some io_EOF, LimitedReader N)
          else (fst fr, snd fr, LimitedReader (N - int (fst fr))))"

text \<open>
  One iteration of the loop \<open>OUTER\<close> of \<open>streamFile\<close> (lines 632 to 718): the calls made, and
  \<open>Inl err\<close> when \<open>streamFile\<close> returns \<open>err\<close>, \<open>Inr st\<close> when the loop goes on with the variables
  \<open>st\<close>.
\<close>

definition streamFile_wait ::
  "(error \<Rightarrow> string) \<Rightarrow> string \<Rightarrow> int \<Rightarrow> streamVars \<Rightarrow> waitEvent
     \<Rightarrow> fileCall list \<times> (error option + streamVars)" where
  "streamFile_wait Error path limit st ev =
     (case ev of
        Modified \<Rightarrow> ([], Inr st)
      | Deleted r \<Rightarrow> ([Send path deleteEvent 0 (readOffset st)], Inl (parseFramerErr Error r))
      | Truncated closeErr readAtErr \<Rightarrow>
          (case closeErr of
             Some err \<Rightarrow> ([Close (fileNum st)], Inl (Some err))
           | None \<Rightarrow>
               (case readAtErr of
                  Some err \<Rightarrow> ([Close (fileNum st), ReadAt path 0], Inl (Some err))
                | None \<Rightarrow>
                    if limit \<le> 0 then
                      ([Close (fileNum st), ReadAt path 0],
                       Inr (st\<lparr>readOffset := 0, fileNum := fileNum st + 1, fileReader := FileReader,
                              lastEvent := truncateEvent\<rparr>))
                    else
                      (case fileReader st of
                         LimitedReader N \<Rightarrow>
                           ([Close (fileNum st), ReadAt path 0],
                            Inr (st\<lparr>readOffset := 0, fileNum := fileNum st + 1,
                                   fileReader := LimitedReader N, lastEvent := truncateEvent\<rparr>))
                       | FileReader \<Rightarrow>
                           ([Close (fileNum st), ReadAt path 0],
                            Inl (Some (ErrorString ''unable to determine remaining read limit''))))))
      | FramerExit \<Rightarrow> ([], Inl None)
      | CtxDone \<Rightarrow> ([], Inl None)
      | EofCancel r \<Rightarrow> ([], Inl r))"

definition streamFile_iter ::
  "(error \<Rightarrow> string) \<Rightarrow> string \<Rightarrow> int \<Rightarrow> streamVars \<Rightarrow> readEnv
     \<Rightarrow> fileCall list \<times> (error option + streamVars)" where
  "streamFile_iter Error path limit st env =
     (case reader_Read (fileReader st) (fileRead env) of
        (n, readErr, rd) \<Rightarrow>
          let off = wrap64 (readOffset st + int n)
          in if readErr \<noteq> None \<and> readErr \<noteq> Some io_EOF then ([], Inl readErr)
             else
               let sends = (if n \<noteq> 0 \<or> lastEvent st \<noteq> [] then [Send path (lastEvent st) n off] else [])
               in if sends \<noteq> [] \<and> sendErr env \<noteq> None
                  then (sends, Inl (parseFramerErr Error (sendErr env)))
                  else
                    let st1 = st\<lparr>readOffset := off, fileReader := rd, lastEvent := []\<rparr>
                    in if readErr = None then (sends, Inr st1)
                       else
                         let watch = (if changes st then [] else [ChangeEvents path off])
                         in if \<not> changes st \<and> changeEventsErr env \<noteq> None
                            then (sends @ watch, Inl (changeEventsErr env))
                            else (case streamFile_wait Error path limit (st1\<lparr>changes := True\<rparr>) (selected env) of
                                    (calls, r) \<Rightarrow> (sends @ watch @ calls, r)))"

text \<open>
  Lines 600 to 630: the first \<open>fs.ReadAt\<close> (its error is \<open>readAtErr\<close>) and the reader.
\<close>

definition streamFile_init :: "int \<Rightarrow> int \<Rightarrow> error option \<Rightarrow> error + streamVars" where
  "streamFile_init off limit readAtErr =
     (case readAtErr of
        Some err \<Rightarrow> Inl err
      | None \<Rightarrow>
          Inr \<lparr>readOffset = off, fileNum = 0,
               fileReader = (if limit \<le> 0 then FileReader else LimitedReader limit),
               lastEvent = [], changes = False\<rparr>)"

text \<open>
  The loop \<open>OUTER\<close> against the answers of the environment, one \<open>readEnv\<close> per iteration: the
  calls in order and \<open>Inl err\<close> when \<open>streamFile\<close> has returned \<open>err\<close>, \<open>Inr st\<close> when it is still
  running, with the variables \<open>st\<close>, as the answers end.
\<close>

fun streamFile_loop ::
  "(error \<Rightarrow> string) \<Rightarrow> string \<Rightarrow> int \<Rightarrow> streamVars \<Rightarrow> readEnv list
     \<Rightarrow> fileCall list \<times> (error option + streamVars)" where
  "streamFile_loop Error path limit st [] = ([], Inr st)"
| "streamFile_loop Error path limit st (env # envs) =
     (case streamFile_iter Error path limit st env of
        (calls, Inl r) \<Rightarrow> (calls, Inl r)
      | (calls, Inr st') \<Rightarrow>
          (case streamFile_loop Error path limit st' envs of
             (calls', r) \<Rightarrow> (calls @ calls', r)))"

text \<open>\<open>streamFile\<close> (line 597).\<close>

definition streamFile ::
  "(error \<Rightarrow> string) \<Rightarrow> int \<Rightarrow> string \<Rightarrow> int \<Rightarrow> error option \<Rightarrow> readEnv list
     \<Rightarrow> fileCall list \<times> (error option + streamVars)" where
  "streamFile Error off path limit readAtErr envs =
     (case streamFile_init off limit readAtErr of
        Inl err \<Rightarrow> ([ReadAt path off], Inl (Some err))
      | Inr st \<Rightarrow>
          (case streamFile_loop Error path limit st envs of
             (calls, r) \<Rightarrow> (ReadAt path off # calls, r)))"


section \<open>The session handlers\<close>

text \<open>
  The two capabilities the handlers ask for, \<open>acl.NamespaceCapabilityReadFS\<close> and
  \<open>acl.NamespaceCapabilityReadLogs\<close>, and an ACL object as its method
  \<open>AllowNsOp namespace capability\<close>.
\<close>

datatype capability = NamespaceCapabilityReadFS | NamespaceCapabilityReadLogs

type_synonym ACL = "string \<Rightarrow> capability \<Rightarrow> bool"

text \<open>
  The fields of the requests the handlers read: those \<open>cstructs.FsStreamRequest\<close> and
  \<open>cstructs.FsLogsRequest\<close> share (\<open>AuthToken\<close> and \<open>Namespace\<close> are of the embedded
  \<open>structs.QueryOptions\<close>), and those of each.
\<close>

record FsRequest =
  AllocID :: string
  Offset :: int
  Origin :: string
  Follow :: bool
  PlainText :: bool
  AuthToken :: string
  Namespace :: string

record FsStreamRequest = FsRequest +
  Path :: string
  Limit :: int

record FsLogsRequest = FsRequest +
  Task :: string
  LogType :: string

definition allocIDNotPresentErr :: error where
  "allocIDNotPresentErr = ErrorString ''must provide a valid alloc id''"

definition pathNotPresentErr :: error where
  "pathNotPresentErr = ErrorString ''must provide a file path''"

definition taskNotPresentErr :: error where
  "taskNotPresentErr = ErrorString ''must provide task name''"

definition logTypeNotPresentErr :: error where
  "logTypeNotPresentErr = ErrorString ''must provide log type (stdout/stderr)''"

text \<open>
  What the client answers to a handler: \<open>ResolveToken\<close> gives an error, no ACL object (\<open>nil\<close>)
  or an ACL object; \<open>GetAllocFS\<close> gives an error or the allocation directory, of which the
  handler uses \<open>Stat\<close>; \<open>IsErrUnknownAllocation\<close> is the predicate of package \<open>structs\<close>.
\<close>

record handlerEnv =
  ResolveToken :: "string \<Rightarrow> error + ACL option"
  GetAllocFS :: "string \<Rightarrow> error + (string \<Rightarrow> error + AllocFileInfo)"
  IsErrUnknownAllocation :: "error \<Rightarrow> bool"

text \<open>
  The checks of \<open>stream\<close> on its request (lines 156 to 186), on the result of decoding it.
  \<open>Inl (err, code)\<close> is the call \<open>f.handleStreamResultError(err, code, encoder)\<close> followed by
  \<open>return\<close>; \<open>Inr req\<close> is the request the handler goes on with.
\<close>

definition stream_validate ::
  "handlerEnv \<Rightarrow> error + FsStreamRequest \<Rightarrow> (error \<times> int option) + FsStreamRequest" where
  "stream_validate env decoded =
     (case decoded of
        Inl err \<Rightarrow> Inl (err, Some 500)
      | Inr req \<Rightarrow>
          (case ResolveToken env (AuthToken req) of
             Inl err \<Rightarrow> Inl (err, None)
           | Inr aclObj \<Rightarrow>
               if (case aclObj of
                     None \<Rightarrow> False
                   | Some a \<Rightarrow> \<not> a (Namespace req) NamespaceCapabilityReadFS)
               then Inl (structs_ErrPermissionDenied, None)
               else if AllocID req = [] then Inl (allocIDNotPresentErr, Some 400)
               else if Path req = [] then Inl (pathNotPresentErr, Some 400)
               else if Origin req = ''start'' \<or> Origin req = ''end'' then Inr req
               else if Origin req = [] then Inr (req\<lparr>Origin := ''start''\<rparr>)
               else Inl (invalidOrigin, Some 400)))"

text \<open>
  \<open>stream\<close> up to the offset it passes to \<open>streamFile\<close> (lines 156 to 218).
\<close>

definition stream_prepare ::
  "handlerEnv \<Rightarrow> error + FsStreamRequest \<Rightarrow> (error \<times> int option) + FsStreamRequest" where
  "stream_prepare env decoded =
     (case stream_validate env decoded of
        Inl r \<Rightarrow> Inl r
      | Inr req \<Rightarrow>
          (case GetAllocFS env (AllocID req) of
             Inl err \<Rightarrow> Inl (err, Some (if IsErrUnknownAllocation env err then 404 else 500))
           | Inr Stat \<Rightarrow>
               (case Stat (Path req) of
                  Inl err \<Rightarrow> Inl (err, Some 400)
                | Inr fileInfo \<Rightarrow>
                    if IsDir fileInfo then Inl (ErrIsDirectory (Path req), Some 400)
                    else if Origin req = ''end'' then
                      (let off = wrap64 (Size fileInfo - Offset req)
                       in Inr (req\<lparr>Offset := (if off < 0 then 0 else off)\<rparr>))
                    else Inr req)))"

text \<open>The checks of \<open>logs\<close> on its request (lines 319 to 359).\<close>

definition logs_validate ::
  "handlerEnv \<Rightarrow> error + FsLogsRequest \<Rightarrow> (error \<times> int option) + FsLogsRequest" where
  "logs_validate env decoded =
     (case decoded of
        Inl err \<Rightarrow> Inl (err, Some 500)
      | Inr req \<Rightarrow>
          (case ResolveToken env (AuthToken req) of
             Inl err \<Rightarrow> Inl (err, None)
           | Inr aclObj \<Rightarrow>
               if (case aclObj of
                     None \<Rightarrow> False
                   | Some a \<Rightarrow>
                       (let readfs = a (Namespace req) NamespaceCapabilityReadFS;
                            logs = a (Namespace req) NamespaceCapabilityReadLogs
                        in \<not> readfs \<and> \<not> logs))
               then Inl (structs_ErrPermissionDenied, None)
               else if AllocID req = [] then Inl (allocIDNotPresentErr, Some 400)
               else if Task req = [] then Inl (taskNotPresentErr, Some 400)
               else if \<not> (LogType req = ''stdout'' \<or> LogType req = ''stderr'')
                 then Inl (logTypeNotPresentErr, Some 400)
               else if Origin req = ''start'' \<or> Origin req = ''end'' then Inr req
               else if Origin req = [] then Inr (req\<lparr>Origin := ''start''\<rparr>)
               else Inl (invalidOrigin, Some 400)))"


section \<open>Notions used to state the properties\<close>

definition search_post :: "nat \<Rightarrow> (nat \<Rightarrow> bool) \<Rightarrow> nat \<Rightarrow> bool" where
  "search_post n f r = (r \<le> n \<and> (\<forall>a<r. \<not> f a) \<and> (\<forall>a. r \<le> a \<and> a < n \<longrightarrow> f a))"

definition sizes_ok :: "indexTuple list \<Rightarrow> bool" where
  "sizes_ok ts = (\<forall>t\<in>set ts. 0 \<le> Size (entry t) \<and> Size (entry t) < 2 ^ 63)"

definition segSize :: "indexTuple \<Rightarrow> int" where
  "segSize t = Size (entry t)"

definition totalSize :: "indexTuple list \<Rightarrow> int" where
  "totalSize ts = sum_list (map segSize ts)"

definition prefixSize :: "indexTuple list \<Rightarrow> nat \<Rightarrow> int" where
  "prefixSize xs k = totalSize (take (Suc k) xs)"

definition isLogFile :: "string \<Rightarrow> AllocFileInfo \<Rightarrow> bool" where
  "isLogFile pfx e = (\<not> IsDir e \<and> TrimPrefix (Name e) pfx \<noteq> Name e)"

definition logPrefix :: "string \<Rightarrow> string \<Rightarrow> string" where
  "logPrefix task logType = task @ ''.'' @ logType @ ''.''"

definition signedDecimal :: "string \<Rightarrow> int \<Rightarrow> bool" where
  "signedDecimal s n =
     (\<exists>ds. ds \<noteq> [] \<and> list_all isDigit ds \<and> int64 n \<and>
        ((s = ds \<or> s = CHR ''+'' # ds) \<and> n = digitsVal ds \<or> s = CHR ''-'' # ds \<and> n = - digitsVal ds))"

definition startPos :: "indexTuple list \<Rightarrow> int \<Rightarrow> nat" where
  "startPos xs desiredIdx =
     (let i = sort_Search (length xs) (\<lambda>i. idx (xs ! i) \<ge> desiredIdx)
      in if i = length xs then length xs - 1 else i)"

text \<open>What the loop of \<open>logIndexes\<close> returns, with its accumulator.\<close>

definition toTuple :: "string \<Rightarrow> AllocFileInfo \<Rightarrow> indexTuple" where
  "toTuple pfx e = \<lparr>idx = the (Atoi (TrimPrefix (Name e) pfx)), entry = e\<rparr>"

text \<open>
  A bound on the iterations the offset loop still makes at offset \<open>off\<close> and position \<open>k\<close>,
  the last one included: walking back visits at most the positions \<open>k, ..., 0\<close>; walking
  forward visits at most \<open>k, ..., l - 1\<close> and, should the \<open>int64\<close> subtraction wrap to a negative
  offset, walks back from there.
\<close>

definition iterBound :: "indexTuple list \<Rightarrow> int \<Rightarrow> nat \<Rightarrow> nat" where
  "iterBound indexes off k =
     (if off > 0 then (length indexes - 1 - k) + length indexes else k + 1)"

text \<open>
  The array positions the offset loop of \<open>findClosest\<close> reads, in order: the same loop as
  \<open>offsetLoop\<close>, recording \<open>k\<close> at every iteration.
\<close>

function offsetLoop_visited :: "indexTuple list \<Rightarrow> int \<Rightarrow> nat \<Rightarrow> nat list" where
  "offsetLoop_visited indexes off k =
     (case offsetStep indexes off k of
        Next off' k' \<Rightarrow> k # offsetLoop_visited indexes off' k'
      | Break off' k' \<Rightarrow> [k]
      | Panic \<Rightarrow> [k])"
  by pat_completeness auto
termination
  by (relation "measure (\<lambda>(indexes, off, k). loopMeasure indexes off k)")
     (auto simp: offsetStep_def loopMeasure_def Let_def split: if_splits)

text \<open>
  The messages of the error values on Linux, as an instance of the method \<open>Error()\<close>: the
  texts of \<open>syscall.Errno\<close>, of the sentinels of \<open>io\<close> and \<open>os\<close> and of \<open>*os.PathError\<close> are those
  of the Go library. For the errors \<open>fs_endpoint.go\<close> builds with \<open>fmt.Errorf\<close> the arguments of
  \<open>%q\<close> stand between double quotes without the escapes of \<open>strconv.Quote\<close>, the path of a
  log entry is \<open>alloc/logs/\<close> followed by its name (\<open>filepath.Join\<close> of line 549), and the
  text of the \<open>strconv\<close> error is left out; no property below depends on them.
\<close>

fun errnoText :: "errno \<Rightarrow> string" where
  "errnoText EPIPE = ''broken pipe''"
| "errnoText ECONNRESET = ''connection reset by peer''"
| "errnoText ENOENT = ''no such file or directory''"

fun linuxError :: "error \<Rightarrow> string" where
  "linuxError (Errno e) = errnoText e"
| "linuxError io_EOF = ''EOF''"
| "linuxError io_ErrClosedPipe = ''io: read/write on closed pipe''"
| "linuxError os_ErrNotExist = ''file does not exist''"
| "linuxError structs_ErrPermissionDenied = ''Permission denied''"
| "linuxError (PathError opn path e) = opn @ '' '' @ path @ '': '' @ errnoText e"
| "linuxError (ErrorString m) = m"
| "linuxError (ErrLogIndexConvert s) = ''failed to convert \"'' @ s @ ''\" to a log index''"
| "linuxError (ErrLogEntryNotFound task logType) =
     ''log entry for task \"'' @ task @ ''\" and log type \"'' @ logType @ ''\" not found''"
| "linuxError (ErrListEntries err) = ''failed to list entries: '' @ linuxError err"
| "linuxError (ErrStreamFailed name err) =
     ''failed to stream \"alloc/logs/'' @ name @ ''\": '' @ linuxError err"
| "linuxError (ErrIsDirectory p) = ''file \"'' @ p @ ''\" is a directory''"
| "linuxError RuntimePanic = ''runtime error: index out of range''"

text \<open>The number of payload bytes handed to \<open>framer.Send\<close> by a sequence of calls.\<close>

fun sentBytes :: "fileCall list \<Rightarrow> int" where
  "sentBytes [] = 0"
| "sentBytes (Send p ev n off # cs) = int n + sentBytes cs"
| "sentBytes (c # cs) = sentBytes cs"







lemma offsetStep_Next_measure:
  "offsetStep indexes off k = Next off' k' \<Longrightarrow>
   loopMeasure indexes off' k' < loopMeasure indexes off k"
  by (auto simp: offsetStep_def loopMeasure_def Let_def split: if_splits)

section \<open>Lemmas about the library functions\<close>

declare sort_Search_loop.simps [simp del]
declare offsetLoop.simps [simp del]

lemma wrap64_id: "int64 x \<Longrightarrow> wrap64 x = x"
  by (simp add: wrap64_def int64_def)

lemma sort_Search_loop_post:
  "i \<le> j \<Longrightarrow> j \<le> n \<Longrightarrow> (\<forall>a b. a \<le> b \<and> b < n \<and> f a \<longrightarrow> f b) \<Longrightarrow>
   (\<forall>a<i. \<not> f a) \<Longrightarrow> (\<forall>a. j \<le> a \<and> a < n \<longrightarrow> f a) \<Longrightarrow>
   search_post n f (sort_Search_loop f i j)"
proof (induction f i j rule: sort_Search_loop.induct)
  case (1 f i j)
  let ?h = "(i + j) div 2"
  show ?case
  proof (cases "i < j")
    case False
    with "1.prems" have ij: "i = j" by simp
    have "sort_Search_loop f i j = i"
      using False by (simp add: sort_Search_loop.simps[of f i j])
    with "1.prems" ij show ?thesis by (simp add: search_post_def)
  next
    case True
    have hb: "i \<le> ?h" "?h < j" using True by auto
    show ?thesis
    proof (cases "f ?h")
      case fh: True
      have eq: "sort_Search_loop f i j = sort_Search_loop f i ?h"
        using True fh by (simp add: sort_Search_loop.simps[of f i j] Let_def)
      have up: "\<forall>a. ?h \<le> a \<and> a < n \<longrightarrow> f a"
        using "1.prems"(3) fh by blast
      have "search_post n f (sort_Search_loop f i ?h)"
        using "1.IH"(2)[OF True refl _ hb(1) _ "1.prems"(3) "1.prems"(4) up] fh hb "1.prems"(2)
        by simp
      then show ?thesis by (simp add: eq)
    next
      case fh: False
      have eq: "sort_Search_loop f i j = sort_Search_loop f (?h + 1) j"
        using True fh by (simp add: sort_Search_loop.simps[of f i j] Let_def)
      have lo: "\<forall>a<?h + 1. \<not> f a"
      proof (intro allI impI)
        fix a assume "a < ?h + 1"
        then have "a \<le> ?h" by simp
        moreover have "?h < n" using hb "1.prems"(2) by simp
        ultimately show "\<not> f a" using "1.prems"(3) fh by blast
      qed
      have "search_post n f (sort_Search_loop f (?h + 1) j)"
        using "1.IH"(1)[OF True refl _ _ "1.prems"(2) "1.prems"(3) lo "1.prems"(5)] fh hb
        by simp
      then show ?thesis by (simp add: eq)
    qed
  qed
qed

lemma sort_Search_post:
  "(\<forall>a b. a \<le> b \<and> b < n \<and> f a \<longrightarrow> f b) \<Longrightarrow> search_post n f (sort_Search n f)"
  unfolding sort_Search_def by (rule sort_Search_loop_post) auto

lemma sort_ok_length: "sort_ok srt \<Longrightarrow> length (srt xs) = length xs"
  by (metis sort_ok_def size_mset)

lemma sort_ok_set: "sort_ok srt \<Longrightarrow> set (srt xs) = set xs"
  by (metis sort_ok_def set_mset_mset)

lemma sort_ok_sorted: "sort_ok srt \<Longrightarrow> sorted (map idx (srt xs))"
  by (simp add: sort_ok_def)

lemma sort_ok_sort_key: "sort_ok (sort_key idx)"
  by (simp add: sort_ok_def)

section \<open>The offset loop of \<open>findClosest\<close>\<close>

lemma offsetStep_Next_cases:
  assumes "offsetStep xs off k = Next off' k'"
  shows "k < length xs \<and>
     ((off < 0 \<and> off' = wrap64 (segSize (xs ! k) + off) \<and> off' < 0 \<and> 0 < k \<and> k' = k - 1) \<or>
      (0 < off \<and> segSize (xs ! k) < off \<and> off' = wrap64 (off - segSize (xs ! k)) \<and> k' = k + 1 \<and> k' < length xs))"
  using assms by (auto simp: offsetStep_def segSize_def Let_def split: if_splits)

lemma offsetStep_Break_cases:
  assumes "offsetStep xs off k = Break off' k'"
  shows "k < length xs \<and> k' = k \<and>
     ((off = 0 \<and> off' = 0) \<or>
      (off < 0 \<and> 0 \<le> wrap64 (segSize (xs ! k) + off) \<and> off' = wrap64 (segSize (xs ! k) + off)) \<or>
      (off < 0 \<and> wrap64 (segSize (xs ! k) + off) < 0 \<and> k = 0 \<and> off' = 0) \<or>
      (0 < off \<and> off \<le> segSize (xs ! k) \<and> off' = off) \<or>
      (0 < off \<and> segSize (xs ! k) < off \<and> k = length xs - 1 \<and> off' = segSize (xs ! k)))"
  using assms by (auto simp: offsetStep_def segSize_def Let_def split: if_splits)

lemma offsetStep_Panic: "offsetStep xs off k = Panic \<longleftrightarrow> length xs \<le> k"
  by (auto simp: offsetStep_def Let_def)

lemma offsetLoop_total: "k < length xs \<Longrightarrow> \<exists>r. offsetLoop xs off k = Some r"
proof (induction xs off k rule: offsetLoop.induct)
  case (1 xs off k)
  show ?case
  proof (cases "offsetStep xs off k")
    case (Break o' k')
    then show ?thesis by (simp add: offsetLoop.simps[of xs off k])
  next
    case (Next o' k')
    from offsetStep_Next_cases[OF Next] have "k' < length xs" by auto
    from "1.IH"[OF Next this] show ?thesis
      using Next by (simp add: offsetLoop.simps[of xs off k])
  next
    case Panic
    with "1.prems" show ?thesis by (simp add: offsetStep_Panic)
  qed
qed

lemma sizes_ok_nth: "sizes_ok xs \<Longrightarrow> k < length xs \<Longrightarrow> 0 \<le> segSize (xs ! k) \<and> segSize (xs ! k) < 2 ^ 63"
  by (simp add: sizes_ok_def segSize_def)

lemma wrap64_back: "0 \<le> s \<Longrightarrow> s < 2 ^ 63 \<Longrightarrow> int64 off \<Longrightarrow> off < 0 \<Longrightarrow> wrap64 (s + off) = s + off"
  by (rule wrap64_id) (simp add: int64_def)

lemma wrap64_fwd: "0 \<le> s \<Longrightarrow> int64 off \<Longrightarrow> s < off \<Longrightarrow> wrap64 (off - s) = off - s"
  by (rule wrap64_id) (simp add: int64_def)

lemma offsetLoop_range:
  "k < length xs \<Longrightarrow> sizes_ok xs \<Longrightarrow> int64 off \<Longrightarrow> offsetLoop xs off k = Some (off', k') \<Longrightarrow>
   k' < length xs \<and> 0 \<le> off' \<and> off' \<le> segSize (xs ! k')"
proof (induction xs off k rule: offsetLoop.induct)
  case (1 xs off k)
  note sz = sizes_ok_nth[OF "1.prems"(2) "1.prems"(1)]
  show ?case
  proof (cases "offsetStep xs off k")
    case (Break o' j)
    with "1.prems"(4) have eq: "o' = off'" "j = k'"
      by (simp_all add: offsetLoop.simps[of xs off k])
    from offsetStep_Break_cases[OF Break] sz "1.prems"(3) show ?thesis
      unfolding eq by (auto simp: wrap64_back)
  next
    case (Next o' j)
    from offsetStep_Next_cases[OF Next] sz "1.prems"(3)
    have j: "j < length xs" and o: "int64 o'"
      by (auto simp: wrap64_back wrap64_fwd int64_def)
    have "offsetLoop xs o' j = Some (off', k')"
      using "1.prems"(4) Next by (simp add: offsetLoop.simps[of xs off k])
    from "1.IH"[OF Next j "1.prems"(2) o this] show ?thesis .
  next
    case Panic
    with "1.prems" show ?thesis by (simp add: offsetStep_Panic)
  qed
qed

lemma offsetLoop_stay:
  assumes "k < length xs" "0 \<le> segSize (xs ! k) + off" "0 \<le> segSize (xs ! k)"
    "segSize (xs ! k) < 2 ^ 63" "int64 off" "k = length xs - 1"
  shows "\<exists>off'. offsetLoop xs off k = Some (off', k)"
proof -
  have "\<exists>off'. offsetStep xs off k = Break off' k"
    using assms by (auto simp: offsetStep_def segSize_def Let_def wrap64_back)
  then show ?thesis by (auto simp: offsetLoop.simps[of xs off k])
qed

lemma prefixSize_0: "0 < length xs \<Longrightarrow> prefixSize xs 0 = segSize (xs ! 0)"
  by (cases xs) (simp_all add: prefixSize_def totalSize_def)

lemma prefixSize_Suc:
  "Suc k < length xs \<Longrightarrow> prefixSize xs (Suc k) = prefixSize xs k + segSize (xs ! Suc k)"
  by (simp add: prefixSize_def totalSize_def take_Suc_conv_app_nth)

lemma totalSize_nonneg: "sizes_ok xs \<Longrightarrow> 0 \<le> totalSize xs"
  unfolding totalSize_def by (rule sum_list_nonneg) (auto simp: sizes_ok_def segSize_def)

lemma sizes_ok_take: "sizes_ok xs \<Longrightarrow> sizes_ok (take n xs)"
  by (auto simp: sizes_ok_def dest: in_set_takeD)

lemma prefixSize_nonneg: "sizes_ok xs \<Longrightarrow> 0 \<le> prefixSize xs k"
  unfolding prefixSize_def by (rule totalSize_nonneg) (rule sizes_ok_take)

lemma prefixSize_ge_first: "sizes_ok xs \<Longrightarrow> k < length xs \<Longrightarrow> segSize (xs ! 0) \<le> prefixSize xs k"
proof (induction k)
  case 0
  then show ?case by (simp add: prefixSize_0)
next
  case (Suc k)
  then show ?case using sizes_ok_nth[of xs "Suc k"] by (simp add: prefixSize_Suc)
qed

lemma prefixSize_le_total: "sizes_ok xs \<Longrightarrow> prefixSize xs k \<le> totalSize xs"
proof -
  assume ok: "sizes_ok xs"
  have "totalSize xs = totalSize (take (Suc k) xs) + totalSize (drop (Suc k) xs)"
    unfolding totalSize_def by (metis append_take_drop_id map_append sum_list_append)
  moreover have "0 \<le> totalSize (drop (Suc k) xs)"
    by (rule totalSize_nonneg) (use ok in \<open>auto simp: sizes_ok_def dest: in_set_dropD\<close>)
  ultimately show ?thesis by (simp add: prefixSize_def)
qed

text \<open>Walking back with an offset that reaches the start of the data or beyond.\<close>

lemma offsetLoop_back_zero:
  "k < length xs \<Longrightarrow> sizes_ok xs \<Longrightarrow> int64 off \<Longrightarrow> off < 0 \<Longrightarrow> off + prefixSize xs k \<le> 0 \<Longrightarrow>
   \<exists>k'. offsetLoop xs off k = Some (0, k')"
proof (induction k arbitrary: off)
  case 0
  then have "\<exists>k'. offsetStep xs off 0 = Break 0 k'"
    using sizes_ok_nth[of xs 0]
    by (auto simp: offsetStep_def Let_def prefixSize_0 wrap64_back segSize_def)
  then show ?case by (auto simp: offsetLoop.simps[of xs off 0])
next
  case (Suc k)
  let ?s = "segSize (xs ! Suc k)"
  have sz: "0 \<le> ?s" "?s < 2 ^ 63" using sizes_ok_nth[OF Suc.prems(2) Suc.prems(1)] by auto
  have w: "wrap64 (?s + off) = ?s + off" using sz Suc.prems by (simp add: wrap64_back)
  have le: "?s + off \<le> 0"
    using Suc.prems prefixSize_nonneg[OF Suc.prems(2), of k] by (simp add: prefixSize_Suc)
  show ?case
  proof (cases "?s + off = 0")
    case True
    then have "offsetStep xs off (Suc k) = Break 0 (Suc k)"
      using Suc.prems w by (simp add: offsetStep_def Let_def segSize_def)
    then show ?thesis by (simp add: offsetLoop.simps[of xs off "Suc k"])
  next
    case False
    with le have neg: "?s + off < 0" by simp
    then have st: "offsetStep xs off (Suc k) = Next (?s + off) k"
      using Suc.prems w by (simp add: offsetStep_def Let_def segSize_def)
    have "\<exists>k'. offsetLoop xs (?s + off) k = Some (0, k')"
    proof (rule Suc.IH)
      show "k < length xs" using Suc.prems by simp
      show "sizes_ok xs" by fact
      show "int64 (?s + off)" using Suc.prems sz neg by (simp add: int64_def)
      show "?s + off < 0" by fact
      show "?s + off + prefixSize xs k \<le> 0" using Suc.prems by (simp add: prefixSize_Suc)
    qed
    then show ?thesis using st by (simp add: offsetLoop.simps[of xs off "Suc k"])
  qed
qed

lemma offsetLoop_back_first:
  "k < length xs \<Longrightarrow> sizes_ok xs \<Longrightarrow> int64 off \<Longrightarrow> off < 0 \<Longrightarrow>
   off + prefixSize xs k < 0 \<or> (off + prefixSize xs k \<le> 0 \<and> 0 < segSize (xs ! 0)) \<Longrightarrow>
   offsetLoop xs off k = Some (0, 0)"
proof (induction k arbitrary: off)
  case 0
  then have "offsetStep xs off 0 = Break 0 0"
    using sizes_ok_nth[of xs 0]
    by (auto simp: offsetStep_def Let_def prefixSize_0 wrap64_back segSize_def)
  then show ?case by (simp add: offsetLoop.simps[of xs off 0])
next
  case (Suc k)
  let ?s = "segSize (xs ! Suc k)"
  have sz: "0 \<le> ?s" "?s < 2 ^ 63" using sizes_ok_nth[OF Suc.prems(2) Suc.prems(1)] by auto
  have w: "wrap64 (?s + off) = ?s + off" using sz Suc.prems by (simp add: wrap64_back)
  have k: "k < length xs" using Suc.prems by simp
  have neg: "?s + off < 0"
    using Suc.prems(5) prefixSize_nonneg[OF Suc.prems(2), of k]
      prefixSize_ge_first[OF Suc.prems(2) k] Suc.prems(1)
    by (auto simp: prefixSize_Suc)
  then have st: "offsetStep xs off (Suc k) = Next (?s + off) k"
    using Suc.prems w by (simp add: offsetStep_def Let_def segSize_def)
  have "offsetLoop xs (?s + off) k = Some (0, 0)"
  proof (rule Suc.IH)
    show "k < length xs" by fact
    show "sizes_ok xs" by fact
    show "int64 (?s + off)" using Suc.prems sz neg by (simp add: int64_def)
    show "?s + off < 0" by fact
    show "?s + off + prefixSize xs k < 0 \<or> (?s + off + prefixSize xs k \<le> 0 \<and> 0 < segSize (xs ! 0))"
      using Suc.prems by (auto simp: prefixSize_Suc)
  qed
  then show ?case using st by (simp add: offsetLoop.simps[of xs off "Suc k"])
qed


section \<open>The loop of \<open>logIndexes\<close> and \<open>strconv.Atoi\<close>\<close>

lemma TrimPrefix_neq: "pfx \<noteq> [] \<Longrightarrow> TrimPrefix s pfx \<noteq> s \<longleftrightarrow> prefix pfx s"
proof -
  assume ne: "pfx \<noteq> []"
  have "drop (length pfx) s \<noteq> s" if "prefix pfx s"
  proof
    assume "drop (length pfx) s = s"
    then have "length (drop (length pfx) s) = length s" by simp
    moreover have "length pfx \<le> length s" using that by (rule prefix_length_le)
    moreover have "0 < length pfx" using ne by simp
    ultimately show False by (simp only: length_drop)
  qed
  then show ?thesis by (auto simp: TrimPrefix_def)
qed

lemma TrimPrefix_prefix: "prefix pfx s \<Longrightarrow> s = pfx @ TrimPrefix s pfx"
  by (auto simp: TrimPrefix_def prefix_def)

lemma logPrefix_nonempty: "logPrefix task logType \<noteq> []"
  by (simp add: logPrefix_def)

lemma isDigit_not_sign: "isDigit c \<Longrightarrow> c \<noteq> CHR ''-'' \<and> c \<noteq> CHR ''+''"
  by (auto simp: isDigit_def)

lemma Atoi_signedDecimal: "Atoi s = Some n \<longleftrightarrow> signedDecimal s n"
proof
  assume a: "Atoi s = Some n"
  show "signedDecimal s n"
  proof (cases s)
    case Nil
    with a show ?thesis by (simp add: Atoi_def)
  next
    case (Cons c r)
    with a show ?thesis
      unfolding signedDecimal_def Atoi_def Let_def
      by (cases "c = CHR ''-''"; cases "c = CHR ''+''") (auto split: if_splits)
  qed
next
  assume "signedDecimal s n"
  then obtain ds where ds: "ds \<noteq> []" "list_all isDigit ds" "int64 n"
    and c: "(s = ds \<or> s = CHR ''+'' # ds) \<and> n = digitsVal ds \<or> s = CHR ''-'' # ds \<and> n = - digitsVal ds"
    unfolding signedDecimal_def by blast
  from ds have hd: "hd ds \<noteq> CHR ''-''" "hd ds \<noteq> CHR ''+''"
    using isDigit_not_sign[of "hd ds"] by (cases ds; simp)+
  from c consider "s = ds" "n = digitsVal ds" | "s = CHR ''+'' # ds" "n = digitsVal ds"
    | "s = CHR ''-'' # ds" "n = - digitsVal ds" by blast
  then show "Atoi s = Some n"
  proof cases
    case 1
    with ds hd show ?thesis by (simp add: Atoi_def Let_def)
  next
    case 2
    with ds show ?thesis by (simp add: Atoi_def Let_def)
  next
    case 3
    with ds show ?thesis by (simp add: Atoi_def Let_def)
  qed
qed

lemma Atoi_int64: "Atoi s = Some n \<Longrightarrow> int64 n"
  by (auto simp: Atoi_def Let_def split: if_splits)

lemma logIndexes_loop_Inr:
  "logIndexes_loop es pfx acc = Inr ts \<longleftrightarrow>
   (ts = acc @ map (toTuple pfx) (filter (isLogFile pfx) es) \<and>
    (\<forall>e\<in>set es. isLogFile pfx e \<longrightarrow> Atoi (TrimPrefix (Name e) pfx) \<noteq> None))"
proof (induction es arbitrary: acc)
  case Nil
  then show ?case by auto
next
  case (Cons e es)
  show ?case
  proof (cases "isLogFile pfx e")
    case False
    then have "logIndexes_loop (e # es) pfx acc = logIndexes_loop es pfx acc"
      by (auto simp: isLogFile_def Let_def)
    then show ?thesis using False Cons.IH[of acc] by simp
  next
    case True
    show ?thesis
    proof (cases "Atoi (TrimPrefix (Name e) pfx)")
      case None
      then have "logIndexes_loop (e # es) pfx acc = Inl (ErrLogIndexConvert (TrimPrefix (Name e) pfx))"
        using True by (simp add: isLogFile_def Let_def)
      then show ?thesis using True None by auto
    next
      case (Some i)
      then have "logIndexes_loop (e # es) pfx acc = logIndexes_loop es pfx (acc @ [toTuple pfx e])"
        using True by (simp add: isLogFile_def Let_def toTuple_def)
      then show ?thesis using True Some Cons.IH[of "acc @ [toTuple pfx e]"] by simp
    qed
  qed
qed

lemma logIndexes_Inr:
  "logIndexes entries task logType = Inr ts \<longleftrightarrow>
   (ts = map (toTuple (logPrefix task logType)) (filter (isLogFile (logPrefix task logType)) entries) \<and>
    (\<forall>e\<in>set entries. isLogFile (logPrefix task logType) e \<longrightarrow>
        Atoi (TrimPrefix (Name e) (logPrefix task logType)) \<noteq> None))"
  unfolding logIndexes_def logPrefix_def[symmetric] by (simp add: logIndexes_loop_Inr)

lemma logIndexes_member:
  assumes "logIndexes entries task logType = Inr ts" "t \<in> set ts"
  shows "entry t \<in> set entries \<and> \<not> IsDir (entry t) \<and>
     Name (entry t) = logPrefix task logType @ TrimPrefix (Name (entry t)) (logPrefix task logType) \<and>
     Atoi (TrimPrefix (Name (entry t)) (logPrefix task logType)) = Some (idx t) \<and>
     t = \<lparr>idx = idx t, entry = entry t\<rparr>"
proof -
  let ?p = "logPrefix task logType"
  from assms obtain e where e: "e \<in> set entries" "isLogFile ?p e" "t = toTuple ?p e"
    and ok: "Atoi (TrimPrefix (Name e) ?p) \<noteq> None"
    by (auto simp: logIndexes_Inr)
  have "prefix ?p (Name e)"
    using e(2) TrimPrefix_neq[OF logPrefix_nonempty] by (simp add: isLogFile_def)
  then have "Name e = ?p @ TrimPrefix (Name e) ?p" by (rule TrimPrefix_prefix)
  with e ok show ?thesis by (auto simp: toTuple_def isLogFile_def)
qed

lemma logIndexes_int64: "logIndexes entries task logType = Inr ts \<Longrightarrow> t \<in> set ts \<Longrightarrow> int64 (idx t)"
  using logIndexes_member Atoi_int64 by blast


section \<open>The selection of \<open>findClosest\<close>\<close>

lemma findClosest_unfold:
  assumes "logIndexes entries task logType = Inr ts" "ts \<noteq> []"
  shows "findClosest srt entries dIdx dOff task logType =
     (case offsetLoop (srt ts) dOff (startPos (srt ts) dIdx) of
        None \<Rightarrow> Inl RuntimePanic
      | Some (off, k) \<Rightarrow> Inr (entry (srt ts ! k), idx (srt ts ! k), off))"
  using assms by (simp add: findClosest_def startPos_def Let_def)

lemma findClosest_error:
  "logIndexes entries task logType = Inl err \<Longrightarrow>
   findClosest srt entries dIdx dOff task logType = Inl err"
  by (simp add: findClosest_def)

lemma findClosest_empty:
  "logIndexes entries task logType = Inr [] \<Longrightarrow>
   findClosest srt entries dIdx dOff task logType = Inl (ErrLogEntryNotFound task logType)"
  by (simp add: findClosest_def)

lemma sorted_idx_mono:
  "sorted (map idx xs) \<Longrightarrow> a \<le> b \<Longrightarrow> b < length xs \<Longrightarrow> idx (xs ! a) \<le> idx (xs ! b)"
  using sorted_nth_mono[of "map idx xs" a b] by simp

lemma startPos_post:
  assumes "sorted (map idx xs)"
  shows "search_post (length xs) (\<lambda>i. idx (xs ! i) \<ge> d)
           (sort_Search (length xs) (\<lambda>i. idx (xs ! i) \<ge> d))"
proof (rule sort_Search_post, intro allI impI)
  fix a b assume "a \<le> b \<and> b < length xs \<and> d \<le> idx (xs ! a)"
  then show "d \<le> idx (xs ! b)" using sorted_idx_mono[OF assms, of a b] by simp
qed

lemma search_postD:
  "search_post n f r \<Longrightarrow> r \<le> n"
  "search_post n f r \<Longrightarrow> a < r \<Longrightarrow> \<not> f a"
  "search_post n f r \<Longrightarrow> r \<le> a \<Longrightarrow> a < n \<Longrightarrow> f a"
  by (simp_all add: search_post_def)

lemma startPos_lt:
  assumes "sorted (map idx xs)" "xs \<noteq> []"
  shows "startPos xs d < length xs"
proof -
  define r where "r = sort_Search (length xs) (\<lambda>i. idx (xs ! i) \<ge> d)"
  have "r \<le> length xs"
    unfolding r_def by (rule search_postD(1)[OF startPos_post[OF assms(1)]])
  moreover have "startPos xs d = (if r = length xs then length xs - 1 else r)"
    by (simp add: startPos_def r_def Let_def)
  moreover have "0 < length xs" using assms(2) by simp
  ultimately show ?thesis by (simp split: if_splits)
qed

lemma startPos_ge:
  assumes "sorted (map idx xs)" "a < length xs" "d \<le> idx (xs ! a)"
  shows "d \<le> idx (xs ! startPos xs d) \<and> startPos xs d \<le> a \<and> (\<forall>b<startPos xs d. idx (xs ! b) < d)"
proof -
  define r where "r = sort_Search (length xs) (\<lambda>i. idx (xs ! i) \<ge> d)"
  have post: "search_post (length xs) (\<lambda>i. idx (xs ! i) \<ge> d) r"
    unfolding r_def by (rule startPos_post[OF assms(1)])
  have ra: "r \<le> a"
  proof (rule ccontr)
    assume "\<not> r \<le> a"
    then have "a < r" by simp
    from search_postD(2)[OF post this] assms(3) show False by simp
  qed
  with assms(2) have rl: "r < length xs" by simp
  have sp: "startPos xs d = r" using rl by (simp add: startPos_def r_def Let_def)
  have "d \<le> idx (xs ! r)" using search_postD(3)[OF post le_refl rl] by simp
  moreover have "\<forall>b<r. idx (xs ! b) < d"
  proof (intro allI impI)
    fix b assume "b < r"
    from search_postD(2)[OF post this] show "idx (xs ! b) < d" by simp
  qed
  ultimately show ?thesis using ra by (simp add: sp)
qed

lemma startPos_last:
  assumes "sorted (map idx xs)" "\<forall>a<length xs. idx (xs ! a) < d"
  shows "startPos xs d = length xs - 1"
proof -
  define r where "r = sort_Search (length xs) (\<lambda>i. idx (xs ! i) \<ge> d)"
  have post: "search_post (length xs) (\<lambda>i. idx (xs ! i) \<ge> d) r"
    unfolding r_def by (rule startPos_post[OF assms(1)])
  have "r = length xs"
  proof (rule ccontr)
    assume "r \<noteq> length xs"
    with search_postD(1)[OF post] have rl: "r < length xs" by simp
    have "d \<le> idx (xs ! r)" using search_postD(3)[OF post le_refl rl] by simp
    moreover have "idx (xs ! r) < d" using assms(2) rl by blast
    ultimately show False by simp
  qed
  then show ?thesis by (simp add: startPos_def r_def Let_def)
qed

lemma sorted_last_Max:
  assumes "sorted (map idx xs)" "xs \<noteq> []"
  shows "idx (last xs) = Max (idx ` set xs)"
proof (rule sym, rule Max_eqI)
  show "finite (idx ` set xs)" by simp
  show "idx (last xs) \<in> idx ` set xs" using assms(2) by simp
  fix y assume "y \<in> idx ` set xs"
  then obtain a where "a < length xs" "y = idx (xs ! a)" by (auto simp: in_set_conv_nth)
  then show "y \<le> idx (last xs)"
    using sorted_idx_mono[OF assms(1), of a "length xs - 1"] assms(2)
    by (simp add: last_conv_nth)
qed

lemma sorted_hd_Min:
  assumes "sorted (map idx xs)" "xs \<noteq> []"
  shows "idx (hd xs) = Min (idx ` set xs)"
proof (rule sym, rule Min_eqI)
  show "finite (idx ` set xs)" by simp
  show "idx (hd xs) \<in> idx ` set xs" using assms(2) by simp
  fix y assume "y \<in> idx ` set xs"
  then obtain a where "a < length xs" "y = idx (xs ! a)" by (auto simp: in_set_conv_nth)
  then show "idx (hd xs) \<le> y"
    using sorted_idx_mono[OF assms(1), of 0 a] assms(2)
    by (simp add: hd_conv_nth)
qed

lemma totalSize_mset: "totalSize xs = sum_mset (image_mset segSize (mset xs))"
proof -
  have "sum_list (map segSize xs) = sum_mset (mset (map segSize xs))"
    by (simp only: sum_mset_sum_list)
  then show ?thesis by (simp only: totalSize_def mset_map)
qed

lemma sort_ok_totalSize: "sort_ok srt \<Longrightarrow> totalSize (srt ts) = totalSize ts"
  by (simp only: totalSize_mset sort_ok_def)

lemma sort_ok_sizes: "sort_ok srt \<Longrightarrow> sizes_ok (srt ts) = sizes_ok ts"
  by (simp add: sizes_ok_def sort_ok_set)


section \<open>Termination of the offset loop\<close>

lemma offsetStep_Next_bound:
  "offsetStep indexes off k = Next off' k' \<Longrightarrow> iterBound indexes off' k' < iterBound indexes off k"
  by (auto simp: offsetStep_def iterBound_def Let_def split: if_splits)

lemma offsetLoop_fuel_enough:
  "k < length indexes \<Longrightarrow> iterBound indexes off k \<le> n \<Longrightarrow>
   \<exists>off' k'. offsetLoop_fuel n indexes off k = Some (Break off' k')"
proof (induction n arbitrary: off k)
  case 0
  then show ?case by (simp add: iterBound_def split: if_splits)
next
  case (Suc n)
  show ?case
  proof (cases "offsetStep indexes off k")
    case (Break o' k')
    then show ?thesis by simp
  next
    case (Next o' k')
    from offsetStep_Next_cases[OF Next] have "k' < length indexes" by auto
    moreover have "iterBound indexes o' k' \<le> n"
      using offsetStep_Next_bound[OF Next] Suc.prems(2) by simp
    ultimately show ?thesis using Suc.IH[of k' o'] Next by simp
  next
    case Panic
    with Suc.prems show ?thesis by (simp add: offsetStep_Panic)
  qed
qed

lemma offsetLoop_fuel_sound:
  "offsetLoop_fuel n indexes off k = Some (Break off' k') \<Longrightarrow> offsetLoop indexes off k = Some (off', k')"
proof (induction n arbitrary: off k)
  case 0
  then show ?case by simp
next
  case (Suc n)
  then show ?case
    by (cases "offsetStep indexes off k") (auto simp: offsetLoop.simps[of indexes off k])
qed

lemma iterBound_le: "k < length indexes \<Longrightarrow> iterBound indexes off k \<le> 2 * length indexes"
  unfolding iterBound_def by (cases "off > 0") simp_all


section \<open>Facts about \<open>findClosest\<close> used by the log stream driver\<close>

lemma offsetLoop_pos:
  "offsetLoop xs off k = Some (off', k') \<Longrightarrow> k' < length xs"
proof (induction xs off k rule: offsetLoop.induct)
  case (1 xs off k)
  show ?case
  proof (cases "offsetStep xs off k")
    case (Break o' j)
    with "1.prems" have "j = k'" by (simp add: offsetLoop.simps[of xs off k])
    with offsetStep_Break_cases[OF Break] show ?thesis by simp
  next
    case (Next o' j)
    with "1.prems" have "offsetLoop xs o' j = Some (off', k')"
      by (simp add: offsetLoop.simps[of xs off k])
    from "1.IH"[OF Next this] show ?thesis .
  next
    case Panic
    with "1.prems" show ?thesis by (simp add: offsetLoop.simps[of xs off k])
  qed
qed

lemma offsetLoop_forward:
  "k < length xs \<Longrightarrow> sizes_ok xs \<Longrightarrow> int64 off \<Longrightarrow> 0 \<le> off \<Longrightarrow>
   offsetLoop xs off k = Some (off', k') \<Longrightarrow> k \<le> k'"
proof (induction xs off k rule: offsetLoop.induct)
  case (1 xs off k)
  note sz = sizes_ok_nth[OF "1.prems"(2) "1.prems"(1)]
  show ?case
  proof (cases "offsetStep xs off k")
    case (Break o' j)
    with "1.prems"(5) have "j = k'" by (simp add: offsetLoop.simps[of xs off k])
    with offsetStep_Break_cases[OF Break] show ?thesis by simp
  next
    case (Next o' j)
    from offsetStep_Next_cases[OF Next] "1.prems"(4) sz "1.prems"(3)
    have j: "j = k + 1" "j < length xs" and o: "o' = off - segSize (xs ! k)" "segSize (xs ! k) < off"
      by (auto simp: wrap64_fwd)
    have o64: "int64 o'" and o0: "0 \<le> o'" using o sz "1.prems"(3) by (auto simp: int64_def)
    have "offsetLoop xs o' j = Some (off', k')"
      using "1.prems"(5) Next by (simp add: offsetLoop.simps[of xs off k])
    from "1.IH"[OF Next j(2) "1.prems"(2) o64 o0 this] j(1) show ?thesis by simp
  next
    case Panic
    with "1.prems" show ?thesis by (simp add: offsetStep_Panic)
  qed
qed

lemma offsetLoop_zero: "k < length xs \<Longrightarrow> offsetLoop xs 0 k = Some (0, k)"
  by (simp add: offsetLoop.simps[of xs 0 k] offsetStep_def Let_def)

lemma tuple_eta: "\<lparr>idx = idx (t :: indexTuple), entry = entry t\<rparr> = t"
  by (cases t) simp

lemma findClosest_Inr_ex:
  assumes "sort_ok srt" "logIndexes entries task logType = Inr ts" "ts \<noteq> []"
  shows "\<exists>k off. k < length ts \<and> offsetLoop (srt ts) dOff (startPos (srt ts) dIdx) = Some (off, k) \<and>
     findClosest srt entries dIdx dOff task logType = Inr (entry (srt ts ! k), idx (srt ts ! k), off) \<and>
     srt ts ! k \<in> set ts"
proof -
  let ?xs = "srt ts"
  have len: "length ?xs = length ts" and set: "set ?xs = set ts" and srt: "sorted (map idx ?xs)"
    using assms(1) by (simp_all add: sort_ok_length sort_ok_set sort_ok_sorted)
  have ne: "?xs \<noteq> []" using len assms(3) by auto
  have pl: "startPos ?xs dIdx < length ?xs" by (rule startPos_lt[OF srt ne])
  from offsetLoop_total[OF pl] obtain off k where
    loop: "offsetLoop ?xs dOff (startPos ?xs dIdx) = Some (off, k)" by fastforce
  from offsetLoop_pos[OF loop] have k: "k < length ?xs" .
  have "findClosest srt entries dIdx dOff task logType = Inr (entry (?xs ! k), idx (?xs ! k), off)"
    using loop by (simp add: findClosest_unfold[OF assms(2,3)])
  moreover have "?xs ! k \<in> set ts" using k set nth_mem by blast
  ultimately show ?thesis using k len loop by auto
qed

lemma findClosest_ge:
  assumes "sort_ok srt" "logIndexes entries task logType = Inr ts" "sizes_ok ts"
    "int64 dOff" "0 \<le> dOff" "t \<in> set ts" "dIdx \<le> idx t"
    "findClosest srt entries dIdx dOff task logType = Inr (e, i, off)"
  shows "dIdx \<le> i"
proof -
  let ?xs = "srt ts"
  have ne0: "ts \<noteq> []" using assms(6) by auto
  have len: "length ?xs = length ts" and set: "set ?xs = set ts" and srt: "sorted (map idx ?xs)"
    and ok: "sizes_ok ?xs"
    using assms(1,3) by (simp_all add: sort_ok_length sort_ok_set sort_ok_sorted sort_ok_sizes)
  from findClosest_Inr_ex[OF assms(1,2) ne0, of dOff dIdx] assms(8)
  obtain k where k: "k < length ?xs" and loop: "offsetLoop ?xs dOff (startPos ?xs dIdx) = Some (off, k)"
    and i: "i = idx (?xs ! k)" using len by auto
  from assms(6) set have "t \<in> set ?xs" by simp
  then obtain a where a: "a < length ?xs" "?xs ! a = t" by (auto simp: in_set_conv_nth)
  from startPos_ge[OF srt a(1), of dIdx] assms(7) a(2)
  have p: "dIdx \<le> idx (?xs ! startPos ?xs dIdx)" "startPos ?xs dIdx \<le> a" by auto
  have pl: "startPos ?xs dIdx < length ?xs" using p(2) a(1) by simp
  from offsetLoop_forward[OF pl ok assms(4,5) loop] have "startPos ?xs dIdx \<le> k" .
  from sorted_idx_mono[OF srt this k] p(1) i show ?thesis by simp
qed

lemma findClosest_max:
  assumes "sort_ok srt" "logIndexes entries task logType = Inr ts" "ts \<noteq> []"
  shows "\<exists>e. findClosest srt entries MaxInt64 0 task logType = Inr (e, Max (idx ` set ts), 0)"
proof -
  let ?xs = "srt ts"
  let ?p = "startPos ?xs MaxInt64"
  have len: "length ?xs = length ts" and set: "set ?xs = set ts" and srt: "sorted (map idx ?xs)"
    using assms(1) by (simp_all add: sort_ok_length sort_ok_set sort_ok_sorted)
  have ne: "?xs \<noteq> []" using len assms(3) by auto
  have pl: "?p < length ?xs" by (rule startPos_lt[OF srt ne])
  have fc: "findClosest srt entries MaxInt64 0 task logType = Inr (entry (?xs ! ?p), idx (?xs ! ?p), 0)"
    by (simp add: findClosest_unfold[OF assms(2,3)] offsetLoop_zero[OF pl])
  have le: "idx t \<le> MaxInt64" if "t \<in> set ts" for t
    using logIndexes_int64[OF assms(2) that] by (simp add: int64_def MaxInt64_def)
  have "idx (?xs ! ?p) = Max (idx ` set ts)"
  proof (cases "\<exists>a<length ?xs. MaxInt64 \<le> idx (?xs ! a)")
    case True
    then obtain a where a: "a < length ?xs" "MaxInt64 \<le> idx (?xs ! a)" by blast
    from startPos_ge[OF srt a] have ge: "MaxInt64 \<le> idx (?xs ! ?p)" by simp
    show ?thesis
    proof (rule sym, rule Max_eqI)
      show "finite (idx ` set ts)" by simp
      show "idx (?xs ! ?p) \<in> idx ` set ts" using pl set nth_mem by blast
      fix y assume "y \<in> idx ` set ts"
      then show "y \<le> idx (?xs ! ?p)" using le ge by fastforce
    qed
  next
    case False
    then have "\<forall>a<length ?xs. idx (?xs ! a) < MaxInt64" by (simp add: not_le)
    from startPos_last[OF srt this] have "?xs ! ?p = last ?xs" using ne by (simp add: last_conv_nth)
    then show ?thesis using sorted_last_Max[OF srt ne] set by simp
  qed
  with fc show ?thesis by simp
qed


section \<open>The log stream driver\<close>

lemma logsImpl_iter_unfold:
  assumes "fsList env = Inr entries"
    "maxIndexOf srt follow entries task logType = Inr maxIndex"
    "findClosest srt entries (nextIdx st) (offset st) task logType = Inr (e, i, off)"
  shows "logsImpl_iter srt follow task logType st env = logsImpl_segment follow maxIndex st e i off env"
  using assms by (simp add: logsImpl_iter_def)

lemma maxIndexOf_follow: "maxIndexOf srt True entries task logType = Inr MaxInt64"
  by (simp add: maxIndexOf_def)

lemma maxIndexOf_nofollow:
  assumes "sort_ok srt" "logIndexes entries task logType = Inr ts" "ts \<noteq> []"
  shows "maxIndexOf srt False entries task logType = Inr (Max (idx ` set ts))"
  using findClosest_max[OF assms] by (auto simp: maxIndexOf_def)

lemma logsImpl_segment_return:
  "maxIndex < i \<Longrightarrow> logsImpl_segment False maxIndex st e i off env = ([], Return None)"
  by (simp add: logsImpl_segment_def)

lemma logsImpl_segment_last_call:
  "fst (logsImpl_segment False i st e i off env) = [StreamFile e off ClosedChan]"
  by (simp add: logsImpl_segment_def Let_def split: option.splits)

lemma logsImpl_segment_last_exit:
  "streamErr env = None \<Longrightarrow> snd (logsImpl_segment False i st e i off env) = Return None"
  by (simp add: logsImpl_segment_def Let_def)

lemma logsImpl_segment_Continue:
  assumes "logsImpl_segment follow maxIndex st e i off env = (calls, Continue st')"
    "streamErr env = None"
  shows "\<exists>ch. calls = [StreamFile e off ch] \<and> st' = \<lparr>offset = 0, nextIdx = wrap64 (i + 1)\<rparr>"
  using assms by (auto simp: logsImpl_segment_def Let_def split: if_splits)

lemma logsImpl_iter_Continue:
  assumes "logsImpl_iter srt follow task logType st env = (calls, Continue st')"
  shows "\<exists>entries maxIndex e i off. fsList env = Inr entries \<and>
     findClosest srt entries (nextIdx st) (offset st) task logType = Inr (e, i, off) \<and>
     logsImpl_segment follow maxIndex st e i off env = (calls, Continue st')"
  using assms by (auto simp: logsImpl_iter_def split: sum.splits)

declare offsetLoop_visited.simps [simp del]

lemma mset_two:
  assumes "mset xs = {#a, b#}"
  shows "xs = [a, b] \<or> xs = [b, a]"
proof -
  from assms have "size (mset xs) = 2" by simp
  then have "length xs = 2" by simp
  then obtain x y where xs: "xs = [x, y]"
    by (metis (no_types, opaque_lifting) Suc_length_conv length_0_conv numeral_2_eq_2)
  with assms have "{#x, y#} = {#a, b#}" by simp
  then have "(x = a \<and> y = b) \<or> (x = b \<and> y = a)"
    by (auto simp: add_eq_conv_ex)
  with xs show ?thesis by auto
qed

lemma sort_ok_two:
  assumes "sort_ok srt" "mset ts = {#a, b#}" "idx a < idx b"
  shows "srt ts = [a, b]"
proof -
  from assms(1) have m: "mset (srt ts) = mset ts" and s: "sorted (map idx (srt ts))"
    by (simp_all add: sort_ok_def)
  from mset_two[of "srt ts" a b] m assms(2) have "srt ts = [a, b] \<or> srt ts = [b, a]" by simp
  with s assms(3) show ?thesis by auto
qed

lemma logsImpl_segment_call:
  "follow \<or> i < maxIndex \<Longrightarrow>
   fst (logsImpl_segment follow maxIndex st e i off env)
     = [StreamFile e off (BlockUntilNextLog (wrap64 (i + 1)))]"
  by (auto simp: logsImpl_segment_def Let_def split: option.splits)

lemma logPrefix_TrimPrefix: "TrimPrefix (logPrefix task logType @ sfx) (logPrefix task logType) = sfx"
  by (simp add: TrimPrefix_def)

lemma logIndexes_bad_suffix:
  assumes "e \<in> set entries" "\<not> IsDir e" "Name e = logPrefix task logType @ sfx" "Atoi sfx = None"
  shows "\<exists>err. logIndexes entries task logType = Inl err"
proof (cases "logIndexes entries task logType")
  case (Inl err)
  then show ?thesis by blast
next
  case (Inr ts)
  let ?p = "logPrefix task logType"
  have "prefix ?p (Name e)" using assms(3) by simp
  then have "isLogFile ?p e"
    using assms(2) TrimPrefix_neq[OF logPrefix_nonempty, of "Name e" task logType]
    by (simp add: isLogFile_def)
  with Inr assms(1) have "Atoi (TrimPrefix (Name e) ?p) \<noteq> None"
    by (simp add: logIndexes_Inr)
  with assms(3,4) show ?thesis by (simp add: logPrefix_TrimPrefix)
qed


section \<open>Connection loss\<close>

lemma Contains_iff: "Contains s substr \<longleftrightarrow> (\<exists>a b. s = a @ substr @ b)"
proof (induction s)
  case Nil
  then show ?case by auto
next
  case (Cons c s)
  show ?case
  proof
    assume "Contains (c # s) substr"
    then consider "prefix substr (c # s)" | "Contains s substr" by auto
    then show "\<exists>a b. c # s = a @ substr @ b"
    proof cases
      case 1
      then obtain b where "c # s = substr @ b" by (auto simp: prefix_def)
      then have "c # s = [] @ substr @ b" by simp
      then show ?thesis by blast
    next
      case 2
      with Cons.IH obtain a b where "s = a @ substr @ b" by blast
      then have "c # s = (c # a) @ substr @ b" by simp
      then show ?thesis by blast
    qed
  next
    assume "\<exists>a b. c # s = a @ substr @ b"
    then obtain a b where ab: "c # s = a @ substr @ b" by blast
    show "Contains (c # s) substr"
    proof (cases a)
      case Nil
      with ab have "prefix substr (c # s)" by (simp add: prefix_def)
      then show ?thesis by simp
    next
      case (Cons x a')
      with ab have "s = a' @ substr @ b" by simp
      with Cons.IH have "Contains s substr" by blast
      then show ?thesis by simp
    qed
  qed
qed

lemma os_IsNotExist_EPIPE: "\<not> os_IsNotExist (Errno EPIPE)"
  by simp

lemma logsImpl_segment_EPIPE:
  "streamErr env = Some (Errno EPIPE) \<Longrightarrow>
   snd (logsImpl_segment follow maxIndex st e i off env) = Return None"
  by (simp add: logsImpl_segment_def Let_def)

lemma logsImpl_iter_calls:
  assumes "logsImpl_iter srt follow task logType st env = (calls, x)" "calls \<noteq> []"
  shows "\<exists>maxIndex e i off. logsImpl_segment follow maxIndex st e i off env = (calls, x)"
  using assms by (auto simp: logsImpl_iter_def split: sum.splits)


section \<open>The file tailer\<close>

lemma sentBytes_append: "sentBytes (a @ b) = sentBytes a + sentBytes b"
  by (induction a rule: sentBytes.induct) simp_all

lemma streamFile_wait_Inr:
  assumes "streamFile_wait Error path limit st ev = (calls, Inr st')"
  shows "sentBytes calls = 0 \<and>
     (ev = Modified \<and> st' = st \<or>
      ev = Truncated None None \<and> calls = [Close (fileNum st), ReadAt path 0] \<and>
        st' = st\<lparr>readOffset := 0, fileNum := fileNum st + 1,
                 fileReader := (if limit \<le> 0 then FileReader else fileReader st),
                 lastEvent := truncateEvent\<rparr> \<and>
        (0 < limit \<longrightarrow> (\<exists>N. fileReader st = LimitedReader N)))"
  using assms
  by (cases ev) (auto simp: streamFile_wait_def split: option.splits if_splits reader.splits)

lemma streamFile_wait_Truncated:
  assumes "limit \<le> 0 \<or> fileReader st = LimitedReader N"
  shows "streamFile_wait Error path limit st (Truncated None None) =
     ([Close (fileNum st), ReadAt path 0],
      Inr (st\<lparr>readOffset := 0, fileNum := fileNum st + 1,
                 fileReader := (if limit \<le> 0 then FileReader else fileReader st),
                 lastEvent := truncateEvent\<rparr>))"
  using assms by (auto simp: streamFile_wait_def)

lemma reader_Read_cases:
  assumes "reader_Read rd fr = (n, readErr, rd')"
  shows "(rd = FileReader \<and> rd' = FileReader \<and> n = fst fr \<and> readErr = snd fr) \<or>
     (\<exists>N. rd = LimitedReader N \<and> rd' = LimitedReader (N - int n) \<and>
        (N \<le> 0 \<and> n = 0 \<and> readErr = Some io_EOF \<or> 0 < N \<and> n = fst fr \<and> readErr = snd fr))"
  using assms by (cases rd) (auto simp: reader_Read_def split: if_splits)

text \<open>The parts of one iteration, given what the read returned.\<close>

lemma streamFile_iter_unfold:
  assumes "reader_Read (fileReader st) (fileRead env) = (n, readErr, rd)"
  shows "streamFile_iter Error path limit st env =
     (let off = wrap64 (readOffset st + int n)
      in if readErr \<noteq> None \<and> readErr \<noteq> Some io_EOF then ([], Inl readErr)
         else
           let sends = (if n \<noteq> 0 \<or> lastEvent st \<noteq> [] then [Send path (lastEvent st) n off] else [])
           in if sends \<noteq> [] \<and> sendErr env \<noteq> None
              then (sends, Inl (parseFramerErr Error (sendErr env)))
              else
                let st1 = st\<lparr>readOffset := off, fileReader := rd, lastEvent := []\<rparr>
                in if readErr = None then (sends, Inr st1)
                   else
                     let watch = (if changes st then [] else [ChangeEvents path off])
                     in if \<not> changes st \<and> changeEventsErr env \<noteq> None
                        then (sends @ watch, Inl (changeEventsErr env))
                        else (case streamFile_wait Error path limit (st1\<lparr>changes := True\<rparr>) (selected env) of
                                (calls, r) \<Rightarrow> (sends @ watch @ calls, r)))"
  using assms by (simp add: streamFile_iter_def)

lemma streamFile_iter_Inr:
  assumes "streamFile_iter Error path limit st env = (calls, Inr st')"
  shows "(fileReader st = FileReader \<longrightarrow> fileReader st' = FileReader) \<and>
     (\<forall>N. 0 < limit \<and> fileReader st = LimitedReader N \<longrightarrow>
        fileReader st' = LimitedReader (N - sentBytes calls))"
proof -
  obtain n readErr rd where rr: "reader_Read (fileReader st) (fileRead env) = (n, readErr, rd)"
    by (metis prod_cases3)
  note rc = reader_Read_cases[OF rr]
  define off where "off = wrap64 (readOffset st + int n)"
  define sends where "sends = (if n \<noteq> 0 \<or> lastEvent st \<noteq> [] then [Send path (lastEvent st) n off] else [])"
  define st1 where "st1 = st\<lparr>readOffset := off, fileReader := rd, lastEvent := []\<rparr>"
  define watch where "watch = (if changes st then [] else [ChangeEvents path off])"
  have sb: "sentBytes sends = int n" "sentBytes watch = 0" by (auto simp: sends_def watch_def)
  have r1: "fileReader st1 = rd" by (simp add: st1_def)
  from assms have
    "(readErr = None \<and> calls = sends \<and> st' = st1) \<or>
     (readErr = Some io_EOF \<and>
       (\<exists>cs. streamFile_wait Error path limit (st1\<lparr>changes := True\<rparr>) (selected env) = (cs, Inr st')
          \<and> calls = sends @ watch @ cs))"
    unfolding streamFile_iter_unfold[OF rr] Let_def off_def[symmetric] sends_def[symmetric]
      st1_def[symmetric] watch_def[symmetric]
    by (auto split: if_splits prod.splits)
  then show ?thesis
  proof
    assume "readErr = None \<and> calls = sends \<and> st' = st1"
    then show ?thesis using rc sb r1 by auto
  next
    assume "readErr = Some io_EOF \<and>
       (\<exists>cs. streamFile_wait Error path limit (st1\<lparr>changes := True\<rparr>) (selected env) = (cs, Inr st')
          \<and> calls = sends @ watch @ cs)"
    then obtain cs where w: "streamFile_wait Error path limit (st1\<lparr>changes := True\<rparr>) (selected env) = (cs, Inr st')"
      and c: "calls = sends @ watch @ cs" by blast
    from streamFile_wait_Inr[OF w] have s0: "sentBytes cs = 0"
      and f: "fileReader st' = fileReader st1 \<or> (limit \<le> 0 \<and> fileReader st' = FileReader)"
      by (auto split: if_splits)
    have tot: "sentBytes calls = int n" by (simp add: c sentBytes_append sb s0)
    from f show ?thesis using rc r1 tot by auto
  qed
qed

lemma streamFile_loop_Inr:
  "streamFile_loop Error path limit st envs = (calls, Inr st') \<Longrightarrow>
   (fileReader st = FileReader \<longrightarrow> fileReader st' = FileReader) \<and>
   (\<forall>N. 0 < limit \<and> fileReader st = LimitedReader N \<longrightarrow>
        fileReader st' = LimitedReader (N - sentBytes calls))"
proof (induction envs arbitrary: st calls)
  case Nil
  then show ?case by simp
next
  case (Cons env envs)
  from Cons.prems obtain c1 st1 c2 where
    it: "streamFile_iter Error path limit st env = (c1, Inr st1)"
    and lp: "streamFile_loop Error path limit st1 envs = (c2, Inr st')"
    and c: "calls = c1 @ c2"
    by (auto split: prod.splits sum.splits)
  from streamFile_iter_Inr[OF it] Cons.IH[OF lp] show ?case
    by (auto simp: c sentBytes_append)
qed

lemma streamFile_Inr:
  assumes "streamFile Error off path limit readAtErr envs = (calls, Inr st)"
  shows "fileReader st = (if limit \<le> 0 then FileReader else LimitedReader (limit - sentBytes calls))"
proof -
  from assms obtain st0 cs where
    i: "streamFile_init off limit readAtErr = Inr st0"
    and l: "streamFile_loop Error path limit st0 envs = (cs, Inr st)"
    and c: "calls = ReadAt path off # cs"
    by (auto simp: streamFile_def split: sum.splits prod.splits)
  from i have "fileReader st0 = (if limit \<le> 0 then FileReader else LimitedReader limit)"
    by (auto simp: streamFile_init_def split: option.splits)
  with streamFile_loop_Inr[OF l] show ?thesis by (auto simp: c)
qed

lemma streamFile_iter_after_truncate:
  assumes "lastEvent st = truncateEvent" "readOffset st = 0"
    "snd (fileRead env) = None \<or> snd (fileRead env) = Some io_EOF"
    "int (fst (fileRead env)) \<le> streamFrameSize"
  shows "\<exists>m rest r. streamFile_iter Error path limit st env
           = (Send path truncateEvent m (int m) # rest, r)"
proof -
  obtain n readErr rd where rr: "reader_Read (fileReader st) (fileRead env) = (n, readErr, rd)"
    by (metis prod_cases3)
  from reader_Read_cases[OF rr] assms(3,4)
  have e: "readErr = None \<or> readErr = Some io_EOF" and n: "int n \<le> streamFrameSize"
    by (auto simp: streamFrameSize_def)
  have "int64 (int n)" using n by (simp add: int64_def streamFrameSize_def)
  then have w: "wrap64 (0 + int n) = int n" by (simp add: wrap64_id)
  have ne: "lastEvent st \<noteq> []" using assms(1) by (simp add: truncateEvent_def)
  show ?thesis
    unfolding streamFile_iter_unfold[OF rr] Let_def assms(2) w
    using e ne assms(1) by (auto split: prod.splits)
qed


section \<open>The session handlers\<close>

lemma stream_validate_Inr:
  assumes "stream_validate env (Inr req) = Inr req'"
  shows "Offset req' = Offset req \<and> Path req' = Path req \<and> AllocID req' = AllocID req \<and>
     (Origin req = ''start'' \<or> Origin req = [] \<longrightarrow> Origin req' = ''start'') \<and>
     (Origin req = ''end'' \<longleftrightarrow> Origin req' = ''end'')"
  using assms
  by (auto simp: stream_validate_def split: sum.splits option.splits if_splits)

lemma stream_prepare_Inr:
  assumes "stream_prepare env (Inr req) = Inr req'"
  shows "\<exists>Stat fileInfo. GetAllocFS env (AllocID req) = Inr Stat \<and> Stat (Path req) = Inr fileInfo \<and>
     \<not> IsDir fileInfo \<and>
     Offset req' = (if Origin req = ''end'' then max 0 (wrap64 (Size fileInfo - Offset req))
                    else Offset req)"
proof -
  from assms obtain r where v: "stream_validate env (Inr req) = Inr r"
    by (auto simp: stream_prepare_def split: sum.splits)
  note f = stream_validate_Inr[OF v]
  have p: "(case GetAllocFS env (AllocID r) of
             Inl err \<Rightarrow> Inl (err, Some (if IsErrUnknownAllocation env err then (404::int) else 500))
           | Inr Stat \<Rightarrow>
               (case Stat (Path r) of
                  Inl err \<Rightarrow> Inl (err, Some (400::int))
                | Inr fileInfo \<Rightarrow>
                    if IsDir fileInfo then Inl (ErrIsDirectory (Path r), Some (400::int))
                    else if Origin r = ''end'' then
                      (let off = wrap64 (Size fileInfo - Offset r)
                       in Inr (r\<lparr>Offset := (if off < 0 then 0 else off)\<rparr>))
                    else Inr r)) = Inr req'"
    using assms by (simp add: stream_prepare_def v)
  then obtain Stat where g1: "GetAllocFS env (AllocID r) = Inr Stat"
    by (cases "GetAllocFS env (AllocID r)") simp_all
  with p obtain fileInfo where g2: "Stat (Path r) = Inr fileInfo"
    by (cases "Stat (Path r)") simp_all
  from p g1 g2 have g3: "\<not> IsDir fileInfo" by (cases "IsDir fileInfo") simp_all
  from p g1 g2 g3 have o: "req' = (if Origin r = ''end''
          then r\<lparr>Offset := (if wrap64 (Size fileInfo - Offset r) < 0 then 0
                             else wrap64 (Size fileInfo - Offset r))\<rparr>
          else r)"
    by (simp add: Let_def split: if_splits)
  note g = g1 g2 g3
  have "Offset req' = (if Origin req = ''end'' then max 0 (wrap64 (Size fileInfo - Offset req))
                    else Offset req)"
    using o f by (auto simp: max_def)
  with g f show ?thesis by auto
qed

lemma PermissionDenied_not_validation:
  "structs_ErrPermissionDenied \<noteq> allocIDNotPresentErr"
  "structs_ErrPermissionDenied \<noteq> pathNotPresentErr"
  "structs_ErrPermissionDenied \<noteq> taskNotPresentErr"
  "structs_ErrPermissionDenied \<noteq> logTypeNotPresentErr"
  "structs_ErrPermissionDenied \<noteq> invalidOrigin"
  by (simp_all add: allocIDNotPresentErr_def pathNotPresentErr_def taskNotPresentErr_def
      logTypeNotPresentErr_def invalidOrigin_def)


section \<open>Successful iterations of the log stream driver\<close>

lemma logsImpl_iter_success:
  assumes "sort_ok srt" "fsList env = Inr entries" "logIndexes entries task logType = Inr ts"
    "logsImpl_iter srt follow task logType st env = (calls, Continue st')" "streamErr env = None"
  shows "\<exists>e i off ch. findClosest srt entries (nextIdx st) (offset st) task logType = Inr (e, i, off)
       \<and> calls = [StreamFile e off ch] \<and> st' = \<lparr>offset = 0, nextIdx = wrap64 (i + 1)\<rparr>
       \<and> (sizes_ok ts \<and> int64 (offset st) \<and> 0 \<le> offset st \<and> (\<exists>t\<in>set ts. nextIdx st \<le> idx t)
             \<and> i < MaxInt64
            \<longrightarrow> nextIdx st \<le> i \<and> nextIdx st' = i + 1 \<and> nextIdx st < nextIdx st')"
proof -
  from logsImpl_iter_Continue[OF assms(4)] assms(2)
  obtain maxIndex e i off where
    fc: "findClosest srt entries (nextIdx st) (offset st) task logType = Inr (e, i, off)"
    and seg: "logsImpl_segment follow maxIndex st e i off env = (calls, Continue st')"
    by auto
  from logsImpl_segment_Continue[OF seg assms(5)]
  obtain ch where c: "calls = [StreamFile e off ch]" and s: "st' = \<lparr>offset = 0, nextIdx = wrap64 (i + 1)\<rparr>"
    by blast
  have "nextIdx st \<le> i \<and> nextIdx st' = i + 1 \<and> nextIdx st < nextIdx st'"
    if h: "sizes_ok ts" "int64 (offset st)" "0 \<le> offset st" "\<exists>t\<in>set ts. nextIdx st \<le> idx t"
      "i < MaxInt64"
  proof -
    from h(4) obtain t where t: "t \<in> set ts" "nextIdx st \<le> idx t" by blast
    from findClosest_ge[OF assms(1,3) h(1,2,3) t fc] have ge: "nextIdx st \<le> i" .
    have "ts \<noteq> []" using t(1) by auto
    from findClosest_Inr_ex[OF assms(1,3) this, of "offset st" "nextIdx st"] fc
    obtain k where "i = idx (srt ts ! k)" "srt ts ! k \<in> set ts" by auto
    with logIndexes_int64[OF assms(3)] have "int64 i" by blast
    with h(5) have "wrap64 (i + 1) = i + 1"
      by (intro wrap64_id) (simp add: int64_def MaxInt64_def)
    with ge s show ?thesis by simp
  qed
  with fc c s show ?thesis by blast
qed


section \<open>Runs of the log stream driver\<close>


lemma logsImpl_segment_Continue_ctx:
  assumes "logsImpl_segment follow maxIndex st e i off env = (calls, Continue st')"
  shows "\<not> ctxDone env"
  using assms by (auto simp: logsImpl_segment_def Let_def split: if_splits)







section \<open>The claims\<close>

subsection \<open>Claim C1\<close>

text \<open>
  Claim C1 (amended). Let the entries that \<open>logIndexes\<close> keeps for \<open>(task, logType)\<close> be a
  non-empty list \<open>ts\<close> of segments with sizes in \<open>0 .. 2^63 - 1\<close>, and let \<open>desiredOffset\<close> be
  an \<open>int64\<close>. Then \<open>findClosest\<close> returns a tuple \<open>(entry, idx, openOffset)\<close> of one of those
  segments with \<open>0 \<le> openOffset \<le> Size entry\<close>. When \<open>desiredIdx\<close> exceeds every present index
  and \<open>desiredOffset\<close> is not below \<open>- Size\<close> of the last segment, the last segment, with the
  highest index, is returned; a more negative offset walks back to an earlier segment. When
  \<open>desiredOffset < 0\<close> and \<open>- desiredOffset\<close> is at least the total size of the segments,
  \<open>openOffset\<close> is \<open>0\<close>, and the segment is the first one when \<open>- desiredOffset\<close> exceeds the total
  size or the first segment is not empty.
\<close>

theorem findClosest_result:
  assumes "sort_ok srt" "logIndexes entries task logType = Inr ts" "ts \<noteq> []"
    "sizes_ok ts" "int64 desiredOffset"
  shows "\<exists>e i off. findClosest srt entries desiredIdx desiredOffset task logType = Inr (e, i, off)
      \<and> \<lparr>idx = i, entry = e\<rparr> \<in> set ts \<and> 0 \<le> off \<and> off \<le> Size e
      \<and> ((\<forall>t\<in>set ts. idx t < desiredIdx) \<and> 0 \<le> Size (entry (last (srt ts))) + desiredOffset
            \<longrightarrow> e = entry (last (srt ts)) \<and> i = Max (idx ` set ts))
      \<and> (desiredOffset < 0 \<and> totalSize ts \<le> - desiredOffset \<longrightarrow> off = 0)
      \<and> (desiredOffset < 0 \<and> (totalSize ts < - desiredOffset \<or>
             totalSize ts \<le> - desiredOffset \<and> 0 < Size (entry (hd (srt ts))))
            \<longrightarrow> e = entry (hd (srt ts)) \<and> i = Min (idx ` set ts) \<and> off = 0)"
proof -
  define xs where "xs = srt ts"
  define p where "p = startPos xs desiredIdx"
  have len: "length xs = length ts" and set: "set xs = set ts" and srt: "sorted (map idx xs)"
    and ok: "sizes_ok xs" and tot: "totalSize xs = totalSize ts"
    using assms(1,4) by (simp_all add: xs_def sort_ok_length sort_ok_set sort_ok_sorted
        sort_ok_sizes sort_ok_totalSize)
  have ne: "xs \<noteq> []" using len assms(3) by auto
  have pl: "p < length xs" unfolding p_def by (rule startPos_lt[OF srt ne])
  from offsetLoop_total[OF pl] obtain off k where loop: "offsetLoop xs desiredOffset p = Some (off, k)"
    by fastforce
  from offsetLoop_range[OF pl ok assms(5) loop]
  have k: "k < length xs" and off: "0 \<le> off" "off \<le> segSize (xs ! k)" by auto
  have fc: "findClosest srt entries desiredIdx desiredOffset task logType
              = Inr (entry (xs ! k), idx (xs ! k), off)"
    using loop by (simp add: findClosest_unfold[OF assms(2,3)] xs_def[symmetric] p_def[symmetric])
  have mem: "xs ! k \<in> set ts" using k set nth_mem by blast
  have tup: "\<lparr>idx = idx (xs ! k), entry = entry (xs ! k)\<rparr> \<in> set ts"
  proof -
    have eq: "\<lparr>idx = idx (xs ! k), entry = entry (xs ! k)\<rparr> = xs ! k" by (cases "xs ! k") simp
    show ?thesis by (subst eq) (rule mem)
  qed
  have part2: "entry (xs ! k) = entry (last xs) \<and> idx (xs ! k) = Max (idx ` set ts)"
    if h: "\<forall>t\<in>set ts. idx t < desiredIdx" "0 \<le> Size (entry (last xs)) + desiredOffset"
  proof -
    have "\<forall>a<length xs. idx (xs ! a) < desiredIdx" using h(1) set nth_mem by blast
    from startPos_last[OF srt this] have pe: "p = length xs - 1" by (simp add: p_def)
    have lst: "last xs = xs ! p" using ne pe by (simp add: last_conv_nth)
    have sz: "0 \<le> segSize (xs ! p) \<and> segSize (xs ! p) < 2 ^ 63" by (rule sizes_ok_nth[OF ok pl])
    have "\<exists>off'. offsetLoop xs desiredOffset p = Some (off', p)"
      by (rule offsetLoop_stay[OF pl _ _ _ assms(5) pe])
         (use h(2) lst sz in \<open>simp_all add: segSize_def\<close>)
    with loop have "k = p" by auto
    then show ?thesis using lst sorted_last_Max[OF srt ne] set by simp
  qed
  have pre: "desiredOffset + prefixSize xs p \<le> desiredOffset + totalSize ts"
    using prefixSize_le_total[OF ok, of p] tot by simp
  have part3a: "off = 0" if h: "desiredOffset < 0" "totalSize ts \<le> - desiredOffset"
  proof -
    have "\<exists>k'. offsetLoop xs desiredOffset p = Some (0, k')"
      by (rule offsetLoop_back_zero[OF pl ok assms(5) h(1)]) (use pre h(2) in simp)
    with loop show ?thesis by auto
  qed
  have part3b: "entry (xs ! k) = entry (hd xs) \<and> idx (xs ! k) = Min (idx ` set ts) \<and> off = 0"
    if h: "desiredOffset < 0"
      "totalSize ts < - desiredOffset \<or> totalSize ts \<le> - desiredOffset \<and> 0 < Size (entry (hd xs))"
  proof -
    have hd: "hd xs = xs ! 0" using ne by (simp add: hd_conv_nth)
    have "offsetLoop xs desiredOffset p = Some (0, 0)"
      by (rule offsetLoop_back_first[OF pl ok assms(5) h(1)])
         (use pre h(2) hd in \<open>auto simp: segSize_def\<close>)
    with loop have "k = 0" "off = 0" by auto
    then show ?thesis using hd sorted_hd_Min[OF srt ne] set by simp
  qed
  show ?thesis
    using fc tup off part2 part3a part3b
    by (simp add: segSize_def xs_def[symmetric])
qed

text \<open>
  The theorem at two segments of sizes 100 and 50: an offset of \<open>- 150\<close> opens the first at 0,
  an offset of \<open>- 20\<close> with an index beyond both opens the last at 30.
\<close>

theorem findClosest_result_witness:
  "findClosest (sort_key idx)
     [\<lparr>Name = ''web.stdout.0'', IsDir = False, Size = 100\<rparr>,
      \<lparr>Name = ''web.stdout.1'', IsDir = False, Size = 50\<rparr>] 7 (- 150) ''web'' ''stdout''
   = Inr (\<lparr>Name = ''web.stdout.0'', IsDir = False, Size = 100\<rparr>, 0, 0)
   \<and> findClosest (sort_key idx)
     [\<lparr>Name = ''web.stdout.0'', IsDir = False, Size = 100\<rparr>,
      \<lparr>Name = ''web.stdout.1'', IsDir = False, Size = 50\<rparr>] 7 (- 20) ''web'' ''stdout''
   = Inr (\<lparr>Name = ''web.stdout.1'', IsDir = False, Size = 50\<rparr>, 1, 30)"
proof -
  let ?e0 = "\<lparr>Name = ''web.stdout.0'', IsDir = False, Size = 100\<rparr>"
  let ?e1 = "\<lparr>Name = ''web.stdout.1'', IsDir = False, Size = 50\<rparr>"
  let ?ts = "[\<lparr>idx = 0, entry = ?e0\<rparr>, \<lparr>idx = 1, entry = ?e1\<rparr>]"
  have l: "logIndexes [?e0, ?e1] ''web'' ''stdout'' = Inr ?ts"
    by (simp add: logIndexes_def TrimPrefix_def Atoi_def isDigit_def digitsVal_def int64_def)
  have ne: "?ts \<noteq> []" by simp
  have ok: "sizes_ok ?ts" by (simp add: sizes_ok_def)
  have sk: "sort_key idx ?ts = ?ts" by simp
  have tot: "totalSize ?ts = 150" by (simp add: totalSize_def segSize_def)
  have a: "int64 (- 150)" and b: "int64 (- 20)" by (simp_all add: int64_def)
  from findClosest_result[OF sort_ok_sort_key l ne ok a, of 7]
  have first: "findClosest (sort_key idx) [?e0, ?e1] 7 (- 150) ''web'' ''stdout'' = Inr (?e0, 0, 0)"
    unfolding sk tot by auto
  from findClosest_result[OF sort_ok_sort_key l ne ok b, of 7]
  obtain off where "findClosest (sort_key idx) [?e0, ?e1] 7 (- 20) ''web'' ''stdout'' = Inr (?e1, 1, off)"
    unfolding sk by auto
  moreover have "findClosest (sort_key idx) [?e0, ?e1] 7 (- 20) ''web'' ''stdout'' = Inr (?e1, 1, 30)"
    by code_simp
  ultimately show ?thesis using first by simp
qed

text \<open>
  Claim C1 as stated fails: with segments 0 (100 bytes) and 1 (50 bytes), \<open>desiredIdx = MaxInt64\<close>
  exceeds both indexes, and with \<open>desiredOffset = - 80\<close> the result is segment 0 at offset 70,
  not the last segment. And with segments 0 (empty) and 1 (100 bytes) and
  \<open>desiredOffset = - 100\<close>, the total size, the result is segment 1 at offset 0, not the first
  segment.
\<close>

theorem findClosest_last_segment_counterexample:
  "findClosest (sort_key idx)
     [\<lparr>Name = ''t.stdout.0'', IsDir = False, Size = 100\<rparr>,
      \<lparr>Name = ''t.stdout.1'', IsDir = False, Size = 50\<rparr>] MaxInt64 (- 80) ''t'' ''stdout''
   = Inr (\<lparr>Name = ''t.stdout.0'', IsDir = False, Size = 100\<rparr>, 0, 70)
   \<and> logIndexes
     [\<lparr>Name = ''t.stdout.0'', IsDir = False, Size = 100\<rparr>,
      \<lparr>Name = ''t.stdout.1'', IsDir = False, Size = 50\<rparr>] ''t'' ''stdout''
   = Inr [\<lparr>idx = 0, entry = \<lparr>Name = ''t.stdout.0'', IsDir = False, Size = 100\<rparr>\<rparr>,
          \<lparr>idx = 1, entry = \<lparr>Name = ''t.stdout.1'', IsDir = False, Size = 50\<rparr>\<rparr>]
   \<and> 1 < MaxInt64
   \<and> findClosest (sort_key idx)
     [\<lparr>Name = ''t.stdout.0'', IsDir = False, Size = 0\<rparr>,
      \<lparr>Name = ''t.stdout.1'', IsDir = False, Size = 100\<rparr>] MaxInt64 (- 100) ''t'' ''stdout''
   = Inr (\<lparr>Name = ''t.stdout.1'', IsDir = False, Size = 100\<rparr>, 1, 0)"
  by code_simp

subsection \<open>Claim C2\<close>




subsection \<open>Claim C3\<close>

text \<open>
  Claim C3. With \<open>follow = false\<close>, in an iteration whose listing has the non-empty index set
  \<open>ts\<close> for \<open>(task, logType)\<close>: \<open>maxIndex\<close> is the largest index of that listing; the iteration
  selects a segment \<open>(e, i, off)\<close> with \<open>findClosest\<close> and goes on as lines 535 to 589 say for
  this \<open>maxIndex\<close>. There, an index above \<open>maxIndex\<close> makes the driver return \<open>nil\<close> without any
  call of \<open>streamFile\<close>; an index equal to \<open>maxIndex\<close> makes it call \<open>streamFile\<close> once, with an
  already closed \<open>eofCancelCh\<close>, and return \<open>nil\<close> when that call returns without error. (The
  selected index is an index of the same listing, so it is never above \<open>maxIndex\<close>.)
\<close>

theorem logsImpl_nofollow_maxIndex:
  assumes "sort_ok srt" "fsList env = Inr entries" "logIndexes entries task logType = Inr ts" "ts \<noteq> []"
  shows "maxIndexOf srt False entries task logType = Inr (Max (idx ` set ts))
     \<and> (\<exists>e i off. findClosest srt entries (nextIdx st) (offset st) task logType = Inr (e, i, off)
           \<and> i \<le> Max (idx ` set ts)
           \<and> logsImpl_iter srt False task logType st env
               = logsImpl_segment False (Max (idx ` set ts)) st e i off env)
     \<and> (maxIndex < j \<longrightarrow> logsImpl_segment False maxIndex st' e' j off' env' = ([], Return None))
     \<and> fst (logsImpl_segment False j st' e' j off' env') = [StreamFile e' off' ClosedChan]
     \<and> (streamErr env' = None \<longrightarrow> snd (logsImpl_segment False j st' e' j off' env') = Return None)"
proof -
  note mx = maxIndexOf_nofollow[OF assms(1,3,4)]
  from findClosest_Inr_ex[OF assms(1,3,4), of "offset st" "nextIdx st"]
  obtain k off where fc: "findClosest srt entries (nextIdx st) (offset st) task logType
        = Inr (entry (srt ts ! k), idx (srt ts ! k), off)" and mem: "srt ts ! k \<in> set ts"
    by blast
  have "idx (srt ts ! k) \<le> Max (idx ` set ts)" using mem by simp
  moreover note logsImpl_iter_unfold[OF assms(2) mx fc]
  ultimately show ?thesis
    using mx fc logsImpl_segment_return logsImpl_segment_last_call logsImpl_segment_last_exit
    by blast
qed

text \<open>
  The theorem at a listing with segments 0 (100 bytes) and 1 (empty) and \<open>nextIdx = 1\<close>:
  \<open>maxIndex\<close> is 1, segment 1 is streamed with a closed channel and the driver returns; and
  at index 2 with \<open>maxIndex = 1\<close> the driver returns without a call.
\<close>

theorem logsImpl_nofollow_maxIndex_witness:
  "maxIndexOf (sort_key idx) False
      [\<lparr>Name = ''t.stdout.0'', IsDir = False, Size = 100\<rparr>,
       \<lparr>Name = ''t.stdout.1'', IsDir = False, Size = 0\<rparr>] ''t'' ''stdout'' = Inr 1
   \<and> logsImpl_iter (sort_key idx) False ''t'' ''stdout'' \<lparr>offset = 0, nextIdx = 1\<rparr>
      \<lparr>fsList = Inr [\<lparr>Name = ''t.stdout.0'', IsDir = False, Size = 100\<rparr>,
                     \<lparr>Name = ''t.stdout.1'', IsDir = False, Size = 0\<rparr>],
       streamErr = None, ctxDone = False, framerExit = False\<rparr>
     = ([StreamFile \<lparr>Name = ''t.stdout.1'', IsDir = False, Size = 0\<rparr> 0 ClosedChan], Return None)
   \<and> logsImpl_segment False 1 \<lparr>offset = 0, nextIdx = 1\<rparr>
        \<lparr>Name = ''t.stdout.1'', IsDir = False, Size = 0\<rparr> 2 0
        \<lparr>fsList = Inr [], streamErr = None, ctxDone = False, framerExit = False\<rparr>
     = ([], Return None)"
proof -
  let ?e0 = "\<lparr>Name = ''t.stdout.0'', IsDir = False, Size = 100\<rparr>"
  let ?e1 = "\<lparr>Name = ''t.stdout.1'', IsDir = False, Size = 0\<rparr>"
  let ?ts = "[\<lparr>idx = 0, entry = ?e0\<rparr>, \<lparr>idx = 1, entry = ?e1\<rparr>]"
  let ?env = "\<lparr>fsList = Inr [?e0, ?e1], streamErr = None, ctxDone = False, framerExit = False\<rparr>"
  let ?env' = "\<lparr>fsList = Inr [], streamErr = None, ctxDone = False, framerExit = False\<rparr>"
  let ?st = "\<lparr>offset = 0, nextIdx = 1\<rparr>"
  have l: "logIndexes [?e0, ?e1] ''t'' ''stdout'' = Inr ?ts"
    by (simp add: logIndexes_def TrimPrefix_def Atoi_def isDigit_def digitsVal_def int64_def)
  have f: "fsList ?env = Inr [?e0, ?e1]" and ne: "?ts \<noteq> []" by simp_all
  have mx: "Max (idx ` set ?ts) = 1" by simp
  have fc: "findClosest (sort_key idx) [?e0, ?e1] (nextIdx ?st) (offset ?st) ''t'' ''stdout''
     = Inr (?e1, 1, 0)" by code_simp
  from logsImpl_nofollow_maxIndex[OF sort_ok_sort_key f l ne,
      of ?st 1 2 ?st ?e1 0 ?env']
  have a: "maxIndexOf (sort_key idx) False [?e0, ?e1] ''t'' ''stdout'' = Inr 1"
    and b: "logsImpl_iter (sort_key idx) False ''t'' ''stdout'' ?st ?env
             = logsImpl_segment False 1 ?st ?e1 1 0 ?env"
    and c: "logsImpl_segment False 1 ?st ?e1 2 0 ?env' = ([], Return None)"
    unfolding mx fc by auto
  have "logsImpl_segment False 1 ?st ?e1 1 0 ?env = ([StreamFile ?e1 0 ClosedChan], Return None)"
    by (simp add: logsImpl_segment_def)
  with a b c show ?thesis by simp
qed

subsection \<open>Claim C4\<close>

text \<open>
  Claim C4 (amended). For a log directory whose segments for \<open>(task, logType)\<close> are exactly index
  0 of size 100 and index 2 of size 50, a log stream with \<open>origin = end\<close> and \<open>offset = 80\<close> calls
  \<open>findClosest\<close> with \<open>desiredIdx = MaxInt64\<close> and \<open>desiredOffset = - 80\<close>, which selects byte 70 of
  segment 0: the 80 bytes before the end of the data are the 50 bytes of segment 2 and the last
  30 bytes of segment 0. The backward walk reads the entry of index 2 and then the entry of
  index 0, the two present segments, and the first call of \<open>streamFile\<close> opens segment 0 at
  offset 70.
\<close>

theorem logs_end_offset_gap:
  assumes "sort_ok srt" "logIndexes entries task logType = Inr ts"
    "mset ts = {#\<lparr>idx = 0, entry = e0\<rparr>, \<lparr>idx = 2, entry = e2\<rparr>#}" "Size e0 = 100" "Size e2 = 50"
    "fsList env = Inr entries"
  shows "logsImpl_init ''end'' 80 = Inr \<lparr>offset = - 80, nextIdx = MaxInt64\<rparr>
     \<and> findClosest srt entries MaxInt64 (- 80) task logType = Inr (e0, 0, 70)
     \<and> map (\<lambda>k. idx (srt ts ! k)) (offsetLoop_visited (srt ts) (- 80) (startPos (srt ts) MaxInt64))
          = [2, 0]
     \<and> fst (logsImpl_iter srt follow task logType \<lparr>offset = - 80, nextIdx = MaxInt64\<rparr> env)
          = [StreamFile e0 70 (BlockUntilNextLog 1)]"
proof -
  let ?t0 = "\<lparr>idx = 0, entry = e0\<rparr>" and ?t2 = "\<lparr>idx = 2, entry = e2\<rparr>"
  let ?st = "\<lparr>offset = - 80, nextIdx = MaxInt64\<rparr>"
  have xs: "srt ts = [?t0, ?t2]" by (rule sort_ok_two[OF assms(1,3)]) simp
  have ne: "ts \<noteq> []" using assms(3) by auto
  have set: "set ts = {?t0, ?t2}" using arg_cong[OF assms(3), of set_mset] by simp
  have init: "logsImpl_init ''end'' 80 = Inr ?st"
    by (simp add: logsImpl_init_def wrap64_def)
  have "startPos [?t0, ?t2] MaxInt64 = length [?t0, ?t2] - 1"
    by (rule startPos_last) (auto simp: MaxInt64_def less_Suc_eq)
  then have sp: "startPos [?t0, ?t2] MaxInt64 = Suc 0" by simp
  have s1: "offsetStep [?t0, ?t2] (- 80) (Suc 0) = Next (- 30) 0"
    using assms(5) by (simp add: offsetStep_def wrap64_def)
  have s0: "offsetStep [?t0, ?t2] (- 30) 0 = Break 70 0"
    using assms(4) by (simp add: offsetStep_def wrap64_def)
  have loop0: "offsetLoop [?t0, ?t2] (- 30) 0 = Some (70, 0)"
    by (subst offsetLoop.simps) (simp only: s0 loopCtl.simps)
  have loop: "offsetLoop [?t0, ?t2] (- 80) (Suc 0) = Some (70, 0)"
    by (subst offsetLoop.simps) (simp only: s1 loopCtl.simps loop0)
  have vis0: "offsetLoop_visited [?t0, ?t2] (- 30) 0 = [0]"
    by (subst offsetLoop_visited.simps) (simp only: s0 loopCtl.simps)
  have vis: "offsetLoop_visited [?t0, ?t2] (- 80) (Suc 0) = [Suc 0, 0]"
    by (subst offsetLoop_visited.simps) (simp only: s1 loopCtl.simps vis0)
  have fc: "findClosest srt entries MaxInt64 (- 80) task logType = Inr (e0, 0, 70)"
    by (simp add: findClosest_unfold[OF assms(2) ne] xs sp loop)
  have mx: "\<exists>m. maxIndexOf srt follow entries task logType = Inr m \<and> 0 < m"
  proof (cases follow)
    case True
    then show ?thesis by (simp add: maxIndexOf_follow MaxInt64_def)
  next
    case False
    then show ?thesis using maxIndexOf_nofollow[OF assms(1,2) ne] set by simp
  qed
  then obtain m where m: "maxIndexOf srt follow entries task logType = Inr m" "0 < m" by blast
  have fc': "findClosest srt entries (nextIdx ?st) (offset ?st) task logType = Inr (e0, 0, 70)"
    using fc by simp
  have "fst (logsImpl_iter srt follow task logType ?st env) = [StreamFile e0 70 (BlockUntilNextLog 1)]"
    using logsImpl_segment_call[of follow 0 m ?st e0 70 env] m(2)
    by (simp add: logsImpl_iter_unfold[OF assms(6) m(1) fc'] wrap64_def)
  with init fc vis show ?thesis by (simp add: xs sp)
qed

text \<open>
  The theorem at the listing of the two files \<open>t.stdout.0\<close> and \<open>t.stdout.2\<close>, in that order
  and in the reverse order.
\<close>

theorem logs_end_offset_gap_witness:
  "findClosest (sort_key idx)
     [\<lparr>Name = ''t.stdout.2'', IsDir = False, Size = 50\<rparr>,
      \<lparr>Name = ''t.stdout.0'', IsDir = False, Size = 100\<rparr>] MaxInt64 (- 80) ''t'' ''stdout''
     = Inr (\<lparr>Name = ''t.stdout.0'', IsDir = False, Size = 100\<rparr>, 0, 70)
   \<and> fst (logsImpl_iter (sort_key idx) False ''t'' ''stdout'' \<lparr>offset = - 80, nextIdx = MaxInt64\<rparr>
       \<lparr>fsList = Inr [\<lparr>Name = ''t.stdout.2'', IsDir = False, Size = 50\<rparr>,
                      \<lparr>Name = ''t.stdout.0'', IsDir = False, Size = 100\<rparr>],
        streamErr = None, ctxDone = False, framerExit = False\<rparr>)
     = [StreamFile \<lparr>Name = ''t.stdout.0'', IsDir = False, Size = 100\<rparr> 70 (BlockUntilNextLog 1)]"
proof -
  let ?e0 = "\<lparr>Name = ''t.stdout.0'', IsDir = False, Size = 100\<rparr>"
  let ?e2 = "\<lparr>Name = ''t.stdout.2'', IsDir = False, Size = 50\<rparr>"
  let ?ts = "[\<lparr>idx = 2, entry = ?e2\<rparr>, \<lparr>idx = 0, entry = ?e0\<rparr>]"
  let ?env = "\<lparr>fsList = Inr [?e2, ?e0], streamErr = None, ctxDone = False, framerExit = False\<rparr>"
  have l: "logIndexes [?e2, ?e0] ''t'' ''stdout'' = Inr ?ts"
    by (simp add: logIndexes_def TrimPrefix_def Atoi_def isDigit_def digitsVal_def int64_def)
  have m: "mset ?ts = {#\<lparr>idx = 0, entry = ?e0\<rparr>, \<lparr>idx = 2, entry = ?e2\<rparr>#}" by simp
  have f: "fsList ?env = Inr [?e2, ?e0]" by simp
  from logs_end_offset_gap[OF sort_ok_sort_key l m _ _ f, of False]
  show ?thesis by simp
qed

text \<open>
  Claim C4 as stated fails: the first call of \<open>streamFile\<close> of that log stream opens segment 0
  (the file \<open>t.stdout.0\<close>) at offset 70, not segment 2.
\<close>

theorem logs_end_offset_gap_counterexample:
  "logsImpl (sort_key idx) True 80 ''end'' ''t'' ''stdout''
     [\<lparr>fsList = Inr [\<lparr>Name = ''t.stdout.0'', IsDir = False, Size = 100\<rparr>,
                    \<lparr>Name = ''t.stdout.2'', IsDir = False, Size = 50\<rparr>],
       streamErr = None, ctxDone = False, framerExit = False\<rparr>]
   = ([StreamFile \<lparr>Name = ''t.stdout.0'', IsDir = False, Size = 100\<rparr> 70 (BlockUntilNextLog 1)],
      None)"
  by code_simp

subsection \<open>Claim C5\<close>

text \<open>
  Claim C5 (amended). Every tuple \<open>(idx, fileInfo)\<close> returned by \<open>logIndexes\<close> is an entry of the
  listing that is not a directory and whose name is \<open><task>.<logType>.<suffix>\<close>, with \<open>idx\<close> the
  value of the suffix read as a decimal integer with an optional sign \<open>+\<close> or \<open>-\<close>, in the range
  of \<open>int64\<close>: this is what \<open>strconv.Atoi\<close> accepts, so \<open>idx\<close> can be negative. And an entry that is
  not a directory, has that prefix and a suffix that is not such an integer makes the whole call
  return an error.
\<close>

theorem logIndexes_tuples:
  "(logIndexes entries task logType = Inr ts \<longrightarrow>
      (\<forall>t\<in>set ts. entry t \<in> set entries \<and> \<not> IsDir (entry t) \<and>
         (\<exists>sfx. Name (entry t) = task @ ''.'' @ logType @ ''.'' @ sfx \<and> signedDecimal sfx (idx t))))
   \<and> (e \<in> set entries \<and> \<not> IsDir e \<and> Name e = task @ ''.'' @ logType @ ''.'' @ sfx'
        \<and> (\<forall>n. \<not> signedDecimal sfx' n)
      \<longrightarrow> (\<exists>err. logIndexes entries task logType = Inl err))"
proof (rule conjI; intro impI ballI)
  fix t assume l: "logIndexes entries task logType = Inr ts" and t: "t \<in> set ts"
  from logIndexes_member[OF l t]
  have m: "entry t \<in> set entries" "\<not> IsDir (entry t)"
    "Name (entry t) = logPrefix task logType @ TrimPrefix (Name (entry t)) (logPrefix task logType)"
    "signedDecimal (TrimPrefix (Name (entry t)) (logPrefix task logType)) (idx t)"
    by (simp_all add: Atoi_signedDecimal)
  from m(3) have "Name (entry t) = task @ ''.'' @ logType @ ''.'' @
      TrimPrefix (Name (entry t)) (logPrefix task logType)"
    by (simp add: logPrefix_def)
  with m(4) have "\<exists>sfx. Name (entry t) = task @ ''.'' @ logType @ ''.'' @ sfx \<and> signedDecimal sfx (idx t)"
    by blast
  with m(1,2) show "entry t \<in> set entries \<and> \<not> IsDir (entry t) \<and>
         (\<exists>sfx. Name (entry t) = task @ ''.'' @ logType @ ''.'' @ sfx \<and> signedDecimal sfx (idx t))"
    by blast
next
  assume h: "e \<in> set entries \<and> \<not> IsDir e \<and> Name e = task @ ''.'' @ logType @ ''.'' @ sfx'
        \<and> (\<forall>n. \<not> signedDecimal sfx' n)"
  then have "Atoi sfx' = None" using Atoi_signedDecimal[of sfx'] by (cases "Atoi sfx'") auto
  moreover have "Name e = logPrefix task logType @ sfx'" using h by (simp add: logPrefix_def)
  ultimately show "\<exists>err. logIndexes entries task logType = Inl err"
    using h logIndexes_bad_suffix by blast
qed

text \<open>
  The theorem at a listing with a directory, a file of another task and the segments 7 and
  \<open>+3\<close>; and at a listing whose second segment has the suffix \<open>1a\<close>.
\<close>

theorem logIndexes_tuples_witness:
  "logIndexes
     [\<lparr>Name = ''t.stdout.9'', IsDir = True, Size = 0\<rparr>,
      \<lparr>Name = ''u.stdout.1'', IsDir = False, Size = 5\<rparr>,
      \<lparr>Name = ''t.stdout.7'', IsDir = False, Size = 10\<rparr>,
      \<lparr>Name = ''t.stdout.+3'', IsDir = False, Size = 20\<rparr>] ''t'' ''stdout''
   = Inr [\<lparr>idx = 7, entry = \<lparr>Name = ''t.stdout.7'', IsDir = False, Size = 10\<rparr>\<rparr>,
          \<lparr>idx = 3, entry = \<lparr>Name = ''t.stdout.+3'', IsDir = False, Size = 20\<rparr>\<rparr>]
   \<and> signedDecimal ''7'' 7 \<and> signedDecimal ''+3'' 3
   \<and> (\<exists>err. logIndexes
       [\<lparr>Name = ''t.stdout.0'', IsDir = False, Size = 10\<rparr>,
        \<lparr>Name = ''t.stdout.1a'', IsDir = False, Size = 20\<rparr>] ''t'' ''stdout'' = Inl err)"
proof -
  let ?d = "\<lparr>Name = ''t.stdout.9'', IsDir = True, Size = 0\<rparr>"
  let ?u = "\<lparr>Name = ''u.stdout.1'', IsDir = False, Size = 5\<rparr>"
  let ?e7 = "\<lparr>Name = ''t.stdout.7'', IsDir = False, Size = 10\<rparr>"
  let ?e3 = "\<lparr>Name = ''t.stdout.+3'', IsDir = False, Size = 20\<rparr>"
  let ?ts = "[\<lparr>idx = 7, entry = ?e7\<rparr>, \<lparr>idx = 3, entry = ?e3\<rparr>]"
  let ?b0 = "\<lparr>Name = ''t.stdout.0'', IsDir = False, Size = 10\<rparr>"
  let ?b1 = "\<lparr>Name = ''t.stdout.1a'', IsDir = False, Size = 20\<rparr>"
  have l: "logIndexes [?d, ?u, ?e7, ?e3] ''t'' ''stdout'' = Inr ?ts"
    by (simp add: logIndexes_def TrimPrefix_def Atoi_def isDigit_def digitsVal_def int64_def)
  from logIndexes_tuples[of "[?d, ?u, ?e7, ?e3]" "''t''" "''stdout''" ?ts] l
  have s: "signedDecimal ''7'' 7 \<and> signedDecimal ''+3'' 3" by simp
  have "Atoi ''1a'' = None" by (simp add: Atoi_def isDigit_def)
  then have "\<forall>n. \<not> signedDecimal ''1a'' n" by (simp add: Atoi_signedDecimal[symmetric])
  with logIndexes_tuples[of "[?b0, ?b1]" "''t''" "''stdout''" _ ?b1 "''1a''"]
  have "\<exists>err. logIndexes [?b0, ?b1] ''t'' ''stdout'' = Inl err" by simp
  with l s show ?thesis by simp
qed

text \<open>
  Claim C5 as stated fails: the file \<open>t.stdout.-5\<close> is accepted with the negative index
  \<open>- 5\<close>.
\<close>

theorem logIndexes_negative_counterexample:
  "logIndexes [\<lparr>Name = ''t.stdout.-5'', IsDir = False, Size = 10\<rparr>] ''t'' ''stdout''
     = Inr [\<lparr>idx = - 5, entry = \<lparr>Name = ''t.stdout.-5'', IsDir = False, Size = 10\<rparr>\<rparr>]"
  by (simp add: logIndexes_def TrimPrefix_def Atoi_def isDigit_def digitsVal_def int64_def)

subsection \<open>Claim C6\<close>

text \<open>
  Claim C6. Let \<open>streamFile\<close> be running, with the calls \<open>calls\<close> made so far, and let the next
  read end at the end of the file, the frame (if one is sent) and the watcher meet no error,
  and the \<open>Truncated\<close> case of the \<open>select\<close> fire with \<open>file.Close\<close> and \<open>fs.ReadAt\<close> succeeding.
  Then the iteration closes the current handle and reopens the file at offset 0 (its last two
  calls), goes on with \<open>offset = 0\<close>, a new handle and the pending event \<open>file truncated\<close>, and
  reads from the file itself when \<open>limit \<le> 0\<close> and else from a reader limited to \<open>limit\<close> minus
  the bytes sent so far, which are the bytes read so far; and the next iteration, unless its
  read fails, first sends a frame with the event \<open>file truncated\<close>, whose offset is the length
  of its payload.
\<close>

theorem streamFile_truncated:
  assumes "streamFile Error off path limit None envs = (calls, Inr st)"
    "reader_Read (fileReader st) (fileRead env) = (n, Some io_EOF, rd)"
    "sendErr env = None" "changeEventsErr env = None" "selected env = Truncated None None"
  shows "\<exists>calls' pre st'. streamFile_iter Error path limit st env = (calls', Inr st')
      \<and> calls' = pre @ [Close (fileNum st), ReadAt path 0]
      \<and> fileNum st' = fileNum st + 1 \<and> readOffset st' = 0 \<and> lastEvent st' = truncateEvent
      \<and> fileReader st' =
           (if limit \<le> 0 then FileReader else LimitedReader (limit - sentBytes (calls @ calls')))
      \<and> (\<forall>env'. (snd (fileRead env') = None \<or> snd (fileRead env') = Some io_EOF)
                  \<and> int (fst (fileRead env')) \<le> streamFrameSize
            \<longrightarrow> (\<exists>m rest r. streamFile_iter Error path limit st' env'
                      = (Send path truncateEvent m (int m) # rest, r)))"
proof -
  define o' where "o' = wrap64 (readOffset st + int n)"
  define sends where "sends = (if n \<noteq> 0 \<or> lastEvent st \<noteq> [] then [Send path (lastEvent st) n o'] else [])"
  define watch where "watch = (if changes st then [] else [ChangeEvents path o'])"
  define st2 where "st2 = st\<lparr>readOffset := o', fileReader := rd, lastEvent := [], changes := True\<rparr>"
  define st' where "st' = st2\<lparr>readOffset := 0, fileNum := fileNum st2 + 1,
                 fileReader := (if limit \<le> 0 then FileReader else fileReader st2),
                 lastEvent := truncateEvent\<rparr>"
  define calls' where "calls' = sends @ watch @ [Close (fileNum st), ReadAt path 0]"
  note inv = streamFile_Inr[OF assms(1)]
  from reader_Read_cases[OF assms(2)] inv
  have rd: "limit \<le> 0 \<or> (\<exists>N. rd = LimitedReader N)" by (auto split: if_splits)
  then have "limit \<le> 0 \<or> (\<exists>N. fileReader st2 = LimitedReader N)" by (simp add: st2_def)
  then obtain N where "limit \<le> 0 \<or> fileReader st2 = LimitedReader N" by blast
  from streamFile_wait_Truncated[OF this, of Error path]
  have w: "streamFile_wait Error path limit st2 (Truncated None None)
      = ([Close (fileNum st), ReadAt path 0], Inr st')"
    by (simp add: st'_def st2_def)
  have it: "streamFile_iter Error path limit st env = (calls', Inr st')"
    unfolding streamFile_iter_unfold[OF assms(2)] Let_def o'_def[symmetric] sends_def[symmetric]
      watch_def[symmetric]
    using assms(3,4,5) w by (simp add: st2_def calls'_def)
  have pre: "calls' = (sends @ watch) @ [Close (fileNum st), ReadAt path 0]"
    by (simp add: calls'_def)
  have f: "fileNum st' = fileNum st + 1" "readOffset st' = 0" "lastEvent st' = truncateEvent"
    by (simp_all add: st'_def st2_def)
  from streamFile_iter_Inr[OF it] inv
  have r: "fileReader st' =
      (if limit \<le> 0 then FileReader else LimitedReader (limit - sentBytes (calls @ calls')))"
    by (auto simp: sentBytes_append split: if_splits)
  have nx: "\<forall>env'. (snd (fileRead env') = None \<or> snd (fileRead env') = Some io_EOF)
                  \<and> int (fst (fileRead env')) \<le> streamFrameSize
            \<longrightarrow> (\<exists>m rest r. streamFile_iter Error path limit st' env'
                      = (Send path truncateEvent m (int m) # rest, r))"
    using streamFile_iter_after_truncate[OF f(3) f(2)] by blast
  from it pre f r nx show ?thesis by blast
qed

text \<open>
  The theorem with \<open>limit = 100\<close>: after 60 bytes read and sent the file is truncated; the
  new reader is limited to the 40 bytes that remain, and the next frame carries the event.
\<close>

theorem streamFile_truncated_witness:
  "streamFile linuxError 0 ''alloc/logs/t.stdout.0'' 100 None
     [\<lparr>fileRead = (60, None), sendErr = None, changeEventsErr = None, selected = Modified\<rparr>]
   = ([ReadAt ''alloc/logs/t.stdout.0'' 0, Send ''alloc/logs/t.stdout.0'' [] 60 60],
      Inr \<lparr>readOffset = 60, fileNum = 0, fileReader = LimitedReader 40, lastEvent = [],
           changes = False\<rparr>)
   \<and> streamFile_iter linuxError ''alloc/logs/t.stdout.0'' 100
       \<lparr>readOffset = 60, fileNum = 0, fileReader = LimitedReader 40, lastEvent = [],
        changes = False\<rparr>
       \<lparr>fileRead = (0, Some io_EOF), sendErr = None, changeEventsErr = None,
        selected = Truncated None None\<rparr>
   = ([ChangeEvents ''alloc/logs/t.stdout.0'' 60, Close 0, ReadAt ''alloc/logs/t.stdout.0'' 0],
      Inr \<lparr>readOffset = 0, fileNum = 1, fileReader = LimitedReader 40,
           lastEvent = ''file truncated'', changes = True\<rparr>)
   \<and> fst (streamFile_iter linuxError ''alloc/logs/t.stdout.0'' 100
       \<lparr>readOffset = 0, fileNum = 1, fileReader = LimitedReader 40,
           lastEvent = ''file truncated'', changes = True\<rparr>
       \<lparr>fileRead = (30, None), sendErr = None, changeEventsErr = None, selected = Modified\<rparr>)
   = [Send ''alloc/logs/t.stdout.0'' ''file truncated'' 30 30]"
proof -
  let ?p = "''alloc/logs/t.stdout.0''"
  let ?e1 = "\<lparr>fileRead = (60, None), sendErr = None, changeEventsErr = None, selected = Modified\<rparr>"
  let ?e2 = "\<lparr>fileRead = (0, Some io_EOF), sendErr = None, changeEventsErr = None,
        selected = Truncated None None\<rparr>"
  let ?e3 = "\<lparr>fileRead = (30, None), sendErr = None, changeEventsErr = None, selected = Modified\<rparr>"
  let ?st = "\<lparr>readOffset = 60, fileNum = 0, fileReader = LimitedReader 40, lastEvent = [],
        changes = False\<rparr>"
  let ?st' = "\<lparr>readOffset = 0, fileNum = 1, fileReader = LimitedReader 40,
           lastEvent = ''file truncated'', changes = True\<rparr>"
  let ?calls = "[ReadAt ?p 0, Send ?p [] 60 60]"
  have run: "streamFile linuxError 0 ?p 100 None [?e1] = (?calls, Inr ?st)" by code_simp
  have rd: "reader_Read (fileReader ?st) (fileRead ?e2) = (0, Some io_EOF, LimitedReader 40)"
    by (simp add: reader_Read_def)
  have it: "streamFile_iter linuxError ?p 100 ?st ?e2
     = ([ChangeEvents ?p 60, Close 0, ReadAt ?p 0], Inr ?st')" by code_simp
  have h: "(snd (fileRead ?e3) = None \<or> snd (fileRead ?e3) = Some io_EOF)
       \<and> int (fst (fileRead ?e3)) \<le> streamFrameSize" by (simp add: streamFrameSize_def)
  have "\<exists>calls' pre st'. streamFile_iter linuxError ?p 100 ?st ?e2 = (calls', Inr st')
      \<and> calls' = pre @ [Close (fileNum ?st), ReadAt ?p 0]
      \<and> fileNum st' = fileNum ?st + 1 \<and> readOffset st' = 0 \<and> lastEvent st' = truncateEvent
      \<and> fileReader st' =
           (if (100::int) \<le> 0 then FileReader else LimitedReader (100 - sentBytes (?calls @ calls')))
      \<and> (\<forall>env'. (snd (fileRead env') = None \<or> snd (fileRead env') = Some io_EOF)
                  \<and> int (fst (fileRead env')) \<le> streamFrameSize
            \<longrightarrow> (\<exists>m rest r. streamFile_iter linuxError ?p 100 st' env'
                      = (Send ?p truncateEvent m (int m) # rest, r)))"
    by (rule streamFile_truncated[OF run rd]) simp_all
  then obtain calls' st' where a: "streamFile_iter linuxError ?p 100 ?st ?e2 = (calls', Inr st')"
    and nx: "\<forall>env'. (snd (fileRead env') = None \<or> snd (fileRead env') = Some io_EOF)
                  \<and> int (fst (fileRead env')) \<le> streamFrameSize
            \<longrightarrow> (\<exists>m rest r. streamFile_iter linuxError ?p 100 st' env'
                      = (Send ?p truncateEvent m (int m) # rest, r))"
    by blast
  from a it have "st' = ?st'" by simp
  with nx h obtain m rest r where "streamFile_iter linuxError ?p 100 ?st' ?e3
      = (Send ?p truncateEvent m (int m) # rest, r)"
    by blast
  have "fst (streamFile_iter linuxError ?p 100 ?st' ?e3) = [Send ?p ''file truncated'' 30 30]"
    by code_simp
  with run it show ?thesis by simp
qed

subsection \<open>Claim C7\<close>

text \<open>
  Claim C7 (amended). \<open>parseFramerErr\<close> returns \<open>nil\<close> for \<open>nil\<close>; it maps every error whose message
  contains the message of \<open>io.ErrClosedPipe\<close> (closed pipe), of \<open>syscall.EPIPE\<close> (broken pipe) or
  of \<open>syscall.ECONNRESET\<close> (connection reset), or the text \<open>forcibly closed\<close>, to the one sentinel
  \<open>syscall.EPIPE\<close>; and it returns every other error unchanged. And \<open>logsImpl\<close> returns \<open>nil\<close>
  whenever a call of \<open>streamFile\<close> it made returns that sentinel.
\<close>

theorem parseFramerErr_mapping:
  "parseFramerErr Error None = None
   \<and> (Contains (Error e) (Error io_ErrClosedPipe) \<or> Contains (Error e) (Error (Errno EPIPE))
        \<or> Contains (Error e) (Error (Errno ECONNRESET)) \<or> Contains (Error e) ''forcibly closed''
       \<longrightarrow> parseFramerErr Error (Some e) = Some (Errno EPIPE))
   \<and> (\<not> Contains (Error e) (Error io_ErrClosedPipe) \<and> \<not> Contains (Error e) (Error (Errno EPIPE))
        \<and> \<not> Contains (Error e) (Error (Errno ECONNRESET)) \<and> \<not> Contains (Error e) ''forcibly closed''
       \<longrightarrow> parseFramerErr Error (Some e) = Some e)
   \<and> (streamErr env = Some (Errno EPIPE)
       \<longrightarrow> snd (logsImpl_segment follow maxIndex st logEntry i off env) = Return None)
   \<and> (logsImpl_iter srt follow task logType st env = (calls, x) \<and> calls \<noteq> []
        \<and> streamErr env = Some (Errno EPIPE) \<longrightarrow> x = Return None)"
proof -
  have "x = Return None"
    if "logsImpl_iter srt follow task logType st env = (calls, x)" "calls \<noteq> []"
      "streamErr env = Some (Errno EPIPE)"
  proof -
    from logsImpl_iter_calls[OF that(1,2)] obtain maxIndex e i off where
      "logsImpl_segment follow maxIndex st e i off env = (calls, x)" by blast
    with logsImpl_segment_EPIPE[OF that(3), of follow maxIndex st e i off] show ?thesis by simp
  qed
  then show ?thesis
    using logsImpl_segment_EPIPE by (auto simp: parseFramerErr_def Let_def)
qed

text \<open>
  The theorem with the messages of Linux: a connection reset reported inside another error
  becomes \<open>EPIPE\<close>, an error about a full disk is returned as it is, and an iteration of
  \<open>logsImpl\<close> whose \<open>streamFile\<close> returns \<open>EPIPE\<close> returns \<open>nil\<close>.
\<close>

theorem parseFramerErr_mapping_witness:
  "parseFramerErr linuxError (Some (ErrorString ''read tcp 10.0.0.7:4647: connection reset by peer''))
     = Some (Errno EPIPE)
   \<and> parseFramerErr linuxError (Some (ErrorString ''no space left on device''))
     = Some (ErrorString ''no space left on device'')
   \<and> logsImpl_iter (sort_key idx) True ''t'' ''stdout'' \<lparr>offset = 0, nextIdx = 0\<rparr>
      \<lparr>fsList = Inr [\<lparr>Name = ''t.stdout.0'', IsDir = False, Size = 100\<rparr>],
       streamErr = Some (Errno EPIPE), ctxDone = False, framerExit = False\<rparr>
     = ([StreamFile \<lparr>Name = ''t.stdout.0'', IsDir = False, Size = 100\<rparr> 0 (BlockUntilNextLog 1)],
        Return None)"
proof -
  let ?r = "ErrorString ''read tcp 10.0.0.7:4647: connection reset by peer''"
  let ?d = "ErrorString ''no space left on device''"
  let ?e0 = "\<lparr>Name = ''t.stdout.0'', IsDir = False, Size = 100\<rparr>"
  let ?st = "\<lparr>offset = 0, nextIdx = 0\<rparr>"
  let ?env = "\<lparr>fsList = Inr [?e0], streamErr = Some (Errno EPIPE), ctxDone = False, framerExit = False\<rparr>"
  have c: "Contains (linuxError ?r) (linuxError (Errno ECONNRESET))" by code_simp
  have n: "\<not> Contains (linuxError ?d) (linuxError io_ErrClosedPipe)"
    "\<not> Contains (linuxError ?d) (linuxError (Errno EPIPE))"
    "\<not> Contains (linuxError ?d) (linuxError (Errno ECONNRESET))"
    "\<not> Contains (linuxError ?d) ''forcibly closed''" by code_simp+
  obtain calls x where it: "logsImpl_iter (sort_key idx) True ''t'' ''stdout'' ?st ?env = (calls, x)"
    by fastforce
  have "fst (logsImpl_iter (sort_key idx) True ''t'' ''stdout'' ?st ?env)
      = [StreamFile ?e0 0 (BlockUntilNextLog 1)]" by code_simp
  with it have calls: "calls = [StreamFile ?e0 0 (BlockUntilNextLog 1)]" by simp
  have s: "streamErr ?env = Some (Errno EPIPE)" by simp
  from parseFramerErr_mapping[of linuxError ?r] c
  have 1: "parseFramerErr linuxError (Some ?r) = Some (Errno EPIPE)" by blast
  from parseFramerErr_mapping[of linuxError ?d] n
  have 2: "parseFramerErr linuxError (Some ?d) = Some ?d" by blast
  from parseFramerErr_mapping[where env = ?env and srt = "sort_key idx" and follow = True
      and task = "''t''" and logType = "''stdout''" and st = ?st and calls = calls and x = x]
    it calls s
  have "x = Return None" by blast
  with 1 2 it calls show ?thesis by simp
qed

text \<open>
  Claim C7 as stated fails: an error that is not \<open>syscall.EPIPE\<close> and whose message contains
  \<open>broken pipe\<close>, but neither the message of \<open>io.ErrClosedPipe\<close> nor that of
  \<open>syscall.ECONNRESET\<close> nor \<open>forcibly closed\<close>, is not returned unchanged: it becomes
  \<open>syscall.EPIPE\<close>.
\<close>

theorem parseFramerErr_broken_pipe_counterexample:
  "parseFramerErr linuxError (Some (ErrorString ''write unix @->/run/nomad.sock: broken pipe''))
     = Some (Errno EPIPE)
   \<and> \<not> Contains ''write unix @->/run/nomad.sock: broken pipe'' (linuxError io_ErrClosedPipe)
   \<and> \<not> Contains ''write unix @->/run/nomad.sock: broken pipe'' (linuxError (Errno ECONNRESET))
   \<and> \<not> Contains ''write unix @->/run/nomad.sock: broken pipe'' ''forcibly closed''"
  by code_simp

subsection \<open>Claim C8\<close>

text \<open>
  Claim C8 (amended). When the handler of \<open>FileSystem.Stream\<close> gets as far as the tailer, the
  file was found by \<open>Stat\<close> and is not a directory, and: with the origin \<open>end\<close> the starting
  offset is \<open>max(0, fileSize - requestedOffset)\<close> computed in \<open>int64\<close>, which is the integer
  \<open>max(0, fileSize - requestedOffset)\<close> whenever \<open>fileSize - requestedOffset\<close> is in the range of
  \<open>int64\<close> (so for every file size and every requested offset that are not negative); with
  the origin \<open>start\<close> or empty the requested offset is used unchanged.
\<close>

theorem stream_end_offset:
  assumes "stream_prepare env (Inr req) = Inr req'"
  shows "\<exists>Stat fileInfo. GetAllocFS env (AllocID req) = Inr Stat \<and> Stat (Path req) = Inr fileInfo
      \<and> \<not> IsDir fileInfo
      \<and> (Origin req = ''end'' \<longrightarrow> Offset req' = max 0 (wrap64 (Size fileInfo - Offset req)))
      \<and> (Origin req = ''end'' \<and> int64 (Size fileInfo - Offset req)
            \<longrightarrow> Offset req' = max 0 (Size fileInfo - Offset req))
      \<and> (Origin req = ''end'' \<and> int64 (Size fileInfo) \<and> int64 (Offset req) \<and> 0 \<le> Size fileInfo
            \<and> 0 \<le> Offset req \<longrightarrow> Offset req' = max 0 (Size fileInfo - Offset req))
      \<and> (Origin req = ''start'' \<or> Origin req = [] \<longrightarrow> Offset req' = Offset req)"
proof -
  from stream_prepare_Inr[OF assms] obtain Stat fileInfo where
    g: "GetAllocFS env (AllocID req) = Inr Stat" "Stat (Path req) = Inr fileInfo" "\<not> IsDir fileInfo"
    and o: "Offset req' = (if Origin req = ''end'' then max 0 (wrap64 (Size fileInfo - Offset req))
                    else Offset req)"
    by blast
  have w: "int64 (Size fileInfo) \<and> int64 (Offset req) \<and> 0 \<le> Size fileInfo \<and> 0 \<le> Offset req
     \<Longrightarrow> int64 (Size fileInfo - Offset req)"
    by (simp add: int64_def)
  from g o w show ?thesis by (auto simp: wrap64_id)
qed

text \<open>
  The theorem at a file of 1000 bytes: the offsets 300 and 4000 from the end give the starting
  offsets 700 and 0.
\<close>

theorem stream_end_offset_witness:
  "stream_prepare
     \<lparr>ResolveToken = (\<lambda>t. Inr None),
      GetAllocFS = (\<lambda>a. Inr (\<lambda>p. Inr \<lparr>Name = ''out.txt'', IsDir = False, Size = 1000\<rparr>)),
      IsErrUnknownAllocation = (\<lambda>e. False)\<rparr>
     (Inr \<lparr>AllocID = ''a1'', Offset = 300, Origin = ''end'', Follow = False, PlainText = True,
           AuthToken = [], Namespace = ''default'', Path = ''out.txt'', Limit = 0\<rparr>)
   = Inr \<lparr>AllocID = ''a1'', Offset = 700, Origin = ''end'', Follow = False, PlainText = True,
           AuthToken = [], Namespace = ''default'', Path = ''out.txt'', Limit = 0\<rparr>
   \<and> stream_prepare
     \<lparr>ResolveToken = (\<lambda>t. Inr None),
      GetAllocFS = (\<lambda>a. Inr (\<lambda>p. Inr \<lparr>Name = ''out.txt'', IsDir = False, Size = 1000\<rparr>)),
      IsErrUnknownAllocation = (\<lambda>e. False)\<rparr>
     (Inr \<lparr>AllocID = ''a1'', Offset = 4000, Origin = ''end'', Follow = False, PlainText = True,
           AuthToken = [], Namespace = ''default'', Path = ''out.txt'', Limit = 0\<rparr>)
   = Inr \<lparr>AllocID = ''a1'', Offset = 0, Origin = ''end'', Follow = False, PlainText = True,
           AuthToken = [], Namespace = ''default'', Path = ''out.txt'', Limit = 0\<rparr>"
proof -
  let ?fi = "\<lparr>Name = ''out.txt'', IsDir = False, Size = 1000\<rparr>"
  let ?env = "\<lparr>ResolveToken = (\<lambda>t. Inr None), GetAllocFS = (\<lambda>a. Inr (\<lambda>p. Inr ?fi)),
      IsErrUnknownAllocation = (\<lambda>e. False)\<rparr>"
  let ?req = "\<lambda>off. \<lparr>AllocID = ''a1'', Offset = off, Origin = ''end'', Follow = False, PlainText = True,
           AuthToken = [], Namespace = ''default'', Path = ''out.txt'', Limit = 0\<rparr>"
  have a: "stream_prepare ?env (Inr (?req 300)) = Inr ((?req 300)\<lparr>Offset := 700\<rparr>)"
    by (simp add: stream_prepare_def stream_validate_def wrap64_def)
  have b: "stream_prepare ?env (Inr (?req 4000)) = Inr ((?req 4000)\<lparr>Offset := 0\<rparr>)"
    by (simp add: stream_prepare_def stream_validate_def wrap64_def)
  from stream_end_offset[OF a] have "Offset ((?req 300)\<lparr>Offset := 700\<rparr>) = max 0 (1000 - 300)"
    by (auto simp: int64_def)
  moreover from stream_end_offset[OF b] have "Offset ((?req 4000)\<lparr>Offset := 0\<rparr>) = max 0 (1000 - 4000)"
    by (auto simp: int64_def)
  ultimately show ?thesis using a b by simp
qed

text \<open>
  Claim C8 as stated fails where the \<open>int64\<close> subtraction overflows: for a file of 10 bytes and
  the requested offset \<open>- 2^63\<close> with the origin \<open>end\<close> the starting offset is 0, and
  \<open>max(0, 10 - (- 2^63))\<close> is \<open>2^63 + 10\<close>.
\<close>

theorem stream_end_offset_counterexample:
  "stream_prepare
     \<lparr>ResolveToken = (\<lambda>t. Inr None),
      GetAllocFS = (\<lambda>a. Inr (\<lambda>p. Inr \<lparr>Name = ''out.txt'', IsDir = False, Size = 10\<rparr>)),
      IsErrUnknownAllocation = (\<lambda>e. False)\<rparr>
     (Inr \<lparr>AllocID = ''a1'', Offset = - 9223372036854775808, Origin = ''end'', Follow = False,
           PlainText = True, AuthToken = [], Namespace = ''default'', Path = ''out.txt'', Limit = 0\<rparr>)
   = Inr \<lparr>AllocID = ''a1'', Offset = 0, Origin = ''end'', Follow = False,
           PlainText = True, AuthToken = [], Namespace = ''default'', Path = ''out.txt'', Limit = 0\<rparr>
   \<and> max 0 (10 - (- 9223372036854775808)) = (9223372036854775818 :: int)
   \<and> MinInt64 = - 9223372036854775808"
  by (simp add: stream_prepare_def stream_validate_def wrap64_def MinInt64_def)

subsection \<open>Claim C9\<close>

text \<open>
  Claim C9. When \<open>ResolveToken\<close> gives an ACL object for the token of the request, the handler
  of \<open>FileSystem.Logs\<close> rejects the request with \<open>structs.ErrPermissionDenied\<close> if and only if the
  object allows neither \<open>read-fs\<close> nor \<open>read-logs\<close> in the namespace of the request, so that
  \<open>read-logs\<close> alone is enough; the handler of \<open>FileSystem.Stream\<close> rejects it so if and only if
  the object does not allow \<open>read-fs\<close>.
\<close>

theorem logs_acl_check:
  assumes "ResolveToken env (AuthToken lreq) = Inr (Some aclObj)"
    "ResolveToken env (AuthToken sreq) = Inr (Some aclObj')"
  shows "((\<exists>code. logs_validate env (Inr lreq) = Inl (structs_ErrPermissionDenied, code))
          \<longleftrightarrow> \<not> aclObj (Namespace lreq) NamespaceCapabilityReadFS
               \<and> \<not> aclObj (Namespace lreq) NamespaceCapabilityReadLogs)
     \<and> (\<not> aclObj (Namespace lreq) NamespaceCapabilityReadFS
          \<and> \<not> aclObj (Namespace lreq) NamespaceCapabilityReadLogs
          \<longrightarrow> logs_validate env (Inr lreq) = Inl (structs_ErrPermissionDenied, None))
     \<and> ((\<exists>code. stream_validate env (Inr sreq) = Inl (structs_ErrPermissionDenied, code))
          \<longleftrightarrow> \<not> aclObj' (Namespace sreq) NamespaceCapabilityReadFS)
     \<and> (\<not> aclObj' (Namespace sreq) NamespaceCapabilityReadFS
          \<longrightarrow> stream_validate env (Inr sreq) = Inl (structs_ErrPermissionDenied, None))"
  using assms PermissionDenied_not_validation
  by (auto simp: logs_validate_def stream_validate_def Let_def)

text \<open>
  The theorem at an ACL object that allows \<open>read-logs\<close> only: the logs request passes the
  checks, the stream request is rejected.
\<close>

theorem logs_acl_check_witness:
  "logs_validate
     \<lparr>ResolveToken = (\<lambda>t. Inr (Some (\<lambda>ns c. c = NamespaceCapabilityReadLogs))),
      GetAllocFS = (\<lambda>a. Inl os_ErrNotExist), IsErrUnknownAllocation = (\<lambda>e. False)\<rparr>
     (Inr \<lparr>AllocID = ''a1'', Offset = 0, Origin = [], Follow = True, PlainText = False,
           AuthToken = ''secret'', Namespace = ''default'', Task = ''web'', LogType = ''stdout''\<rparr>)
   = Inr \<lparr>AllocID = ''a1'', Offset = 0, Origin = ''start'', Follow = True, PlainText = False,
           AuthToken = ''secret'', Namespace = ''default'', Task = ''web'', LogType = ''stdout''\<rparr>
   \<and> stream_validate
     \<lparr>ResolveToken = (\<lambda>t. Inr (Some (\<lambda>ns c. c = NamespaceCapabilityReadLogs))),
      GetAllocFS = (\<lambda>a. Inl os_ErrNotExist), IsErrUnknownAllocation = (\<lambda>e. False)\<rparr>
     (Inr \<lparr>AllocID = ''a1'', Offset = 0, Origin = [], Follow = True, PlainText = False,
           AuthToken = ''secret'', Namespace = ''default'', Path = ''out.txt'', Limit = 0\<rparr>)
   = Inl (structs_ErrPermissionDenied, None)"
proof -
  let ?acl = "\<lambda>(ns :: string) c. c = NamespaceCapabilityReadLogs"
  let ?env = "\<lparr>ResolveToken = (\<lambda>t. Inr (Some ?acl)),
      GetAllocFS = (\<lambda>a. Inl os_ErrNotExist), IsErrUnknownAllocation = (\<lambda>e. False)\<rparr>"
  let ?l = "\<lparr>AllocID = ''a1'', Offset = 0, Origin = [], Follow = True, PlainText = False,
           AuthToken = ''secret'', Namespace = ''default'', Task = ''web'', LogType = ''stdout''\<rparr>"
  let ?s = "\<lparr>AllocID = ''a1'', Offset = 0, Origin = [], Follow = True, PlainText = False,
           AuthToken = ''secret'', Namespace = ''default'', Path = ''out.txt'', Limit = 0\<rparr>"
  have r: "ResolveToken ?env (AuthToken ?l) = Inr (Some ?acl)"
    "ResolveToken ?env (AuthToken ?s) = Inr (Some ?acl)" by simp_all
  from logs_acl_check[OF r]
  have "stream_validate ?env (Inr ?s) = Inl (structs_ErrPermissionDenied, None)" by simp
  moreover have "logs_validate ?env (Inr ?l) = Inr (?l\<lparr>Origin := ''start''\<rparr>)"
    by (simp add: logs_validate_def)
  ultimately show ?thesis by simp
qed

subsection \<open>Claim C10\<close>

text \<open>
  Claim C10. At every position \<open>k\<close> inside a (hence non-empty) index array and for every
  offset, the offset loop of \<open>findClosest\<close> leaves after at most \<open>2 * length indexes\<close> iterations
  with a result; and an iteration that does not break either has a negative offset, keeps it
  negative and moves to the position before (there is one: \<open>k' < k\<close>), or has a positive offset
  and moves to the next position, which is still inside the array.
\<close>

theorem offsetLoop_terminates:
  assumes "k < length indexes"
  shows "(\<exists>off' k'. offsetLoop_fuel (2 * length indexes) indexes off k = Some (Break off' k')
            \<and> offsetLoop indexes off k = Some (off', k'))
       \<and> (\<forall>off' k'. offsetStep indexes off k = Next off' k' \<longrightarrow>
            (off < 0 \<and> off' < 0 \<and> Suc k' = k) \<or> (0 < off \<and> k' = Suc k \<and> k' < length indexes))"
proof
  from offsetLoop_fuel_enough[OF assms iterBound_le[OF assms]]
  obtain off' k' where f: "offsetLoop_fuel (2 * length indexes) indexes off k = Some (Break off' k')"
    by blast
  from offsetLoop_fuel_sound[OF f] f
  show "\<exists>off' k'. offsetLoop_fuel (2 * length indexes) indexes off k = Some (Break off' k')
            \<and> offsetLoop indexes off k = Some (off', k')" by blast
next
  show "\<forall>off' k'. offsetStep indexes off k = Next off' k' \<longrightarrow>
            (off < 0 \<and> off' < 0 \<and> Suc k' = k) \<or> (0 < off \<and> k' = Suc k \<and> k' < length indexes)"
  proof (intro allI impI)
    fix off' k' assume "offsetStep indexes off k = Next off' k'"
    from offsetStep_Next_cases[OF this]
    show "(off < 0 \<and> off' < 0 \<and> Suc k' = k) \<or> (0 < off \<and> k' = Suc k \<and> k' < length indexes)"
      by auto
  qed
qed

text \<open>
  The theorem at the last of two segments of sizes 100 and 50 with offset \<open>- 80\<close>: the first
  iteration continues at the position before with offset \<open>- 30\<close>, the second breaks at offset 70.
\<close>

theorem offsetLoop_terminates_witness:
  "offsetLoop_fuel 4
     [\<lparr>idx = 0, entry = \<lparr>Name = ''t.stdout.0'', IsDir = False, Size = 100\<rparr>\<rparr>,
      \<lparr>idx = 2, entry = \<lparr>Name = ''t.stdout.2'', IsDir = False, Size = 50\<rparr>\<rparr>] (- 80) 1
     = Some (Break 70 0)
   \<and> offsetLoop
     [\<lparr>idx = 0, entry = \<lparr>Name = ''t.stdout.0'', IsDir = False, Size = 100\<rparr>\<rparr>,
      \<lparr>idx = 2, entry = \<lparr>Name = ''t.stdout.2'', IsDir = False, Size = 50\<rparr>\<rparr>] (- 80) 1
     = Some (70, 0)
   \<and> offsetStep
     [\<lparr>idx = 0, entry = \<lparr>Name = ''t.stdout.0'', IsDir = False, Size = 100\<rparr>\<rparr>,
      \<lparr>idx = 2, entry = \<lparr>Name = ''t.stdout.2'', IsDir = False, Size = 50\<rparr>\<rparr>] (- 80) 1
     = Next (- 30) 0"
proof -
  let ?xs = "[\<lparr>idx = 0, entry = \<lparr>Name = ''t.stdout.0'', IsDir = False, Size = 100\<rparr>\<rparr>,
      \<lparr>idx = 2, entry = \<lparr>Name = ''t.stdout.2'', IsDir = False, Size = 50\<rparr>\<rparr>]"
  have k: "1 < length ?xs" by simp
  have st: "offsetStep ?xs (- 80) 1 = Next (- 30) 0"
    by (simp add: offsetStep_def wrap64_def)
  have fu: "offsetLoop_fuel 4 ?xs (- 80) 1 = Some (Break 70 0)"
    by (simp add: numeral_eq_Suc offsetStep_def wrap64_def)
  from offsetLoop_terminates[OF k, of "- 80"] obtain off' k' where
    "offsetLoop_fuel (2 * length ?xs) ?xs (- 80) 1 = Some (Break off' k')"
    "offsetLoop ?xs (- 80) 1 = Some (off', k')" by blast
  moreover have "2 * length ?xs = 4" by simp
  ultimately have "offsetLoop ?xs (- 80) 1 = Some (70, 0)" using fu by simp
  with st fu show ?thesis by simp
qed

end
